theory Spec2Isabelle
  imports Complex_Main "HOL-Library.Multiset" "HOL-Library.Char_ord" "HOL-Library.List_Lexorder"
begin

section \<open>Values, errors and dictionaries\<close>

text \<open>
  The exceptions of \<^verbatim>\<open>workflow_parser.py\<close> and \<^verbatim>\<open>secure_workflow_engine.py\<close> that the
  modelled functions raise, each carrying its message.
\<close>

datatype error =
    WorkflowParseError string
  | WorkflowValidationError string
  | SecurityError string

text \<open>
  The values a YAML/JSON document holds (\<^verbatim>\<open>Dict[str, Any]\<close> in the source). A dictionary is
  an association list in insertion order, which is the iteration order of a Python dict;
  floats are left out.
\<close>

datatype json =
    JNull
  | JBool bool
  | JInt int
  | JStr string
  | JList "json list"
  | JDict "(string \<times> json) list"

type_synonym 'v dict = "(string \<times> 'v) list"

text \<open>\<^verbatim>\<open>d[k] = v\<close>: an existing key keeps its place, a new key goes last.\<close>

fun dict_set :: "string \<Rightarrow> 'v \<Rightarrow> 'v dict \<Rightarrow> 'v dict" where
  "dict_set k v [] = [(k, v)]"
| "dict_set k v ((k', v') # d) = (if k' = k then (k, v) # d else (k', v') # dict_set k v d)"

text \<open>\<^verbatim>\<open>d[k] = f(d[k])\<close> for a key that is present (an absent key leaves the list as it is;
  see \<open>compute_execution_order\<close> for why the source never reads one).\<close>

fun dict_modify :: "string \<Rightarrow> ('v \<Rightarrow> 'v) \<Rightarrow> 'v dict \<Rightarrow> 'v dict" where
  "dict_modify k f [] = []"
| "dict_modify k f ((k', v') # d) = (if k' = k then (k', f v') # d else (k', v') # dict_modify k f d)"

text \<open>\<^verbatim>\<open>d.get(k, default)\<close>.\<close>

definition dict_get :: "'v dict \<Rightarrow> string \<Rightarrow> 'v \<Rightarrow> 'v" where
  "dict_get d k dflt = (case map_of d k of Some v \<Rightarrow> v | None \<Rightarrow> dflt)"

text \<open>A Python \<^verbatim>\<open>set\<close> of strings, kept as a duplicate-free list; \<^verbatim>\<open>s.add(x)\<close>.\<close>

definition set_add :: "string \<Rightarrow> string list \<Rightarrow> string list" where
  "set_add x s = (if x \<in> set s then s else s @ [x])"

text \<open>Python truthiness of an optional string: \<^verbatim>\<open>None\<close> and \<^verbatim>\<open>""\<close> are false.\<close>

fun truthy_str :: "string option \<Rightarrow> bool" where
  "truthy_str None = False"
| "truthy_str (Some s) = (s \<noteq> [])"

section \<open>The workflow parser (\<^verbatim>\<open>workflow_parser.py\<close>)\<close>

subsection \<open>Raw definitions and parsed definitions\<close>

text \<open>
  The value of \<^verbatim>\<open>depends_on\<close> in a step's raw data: a string, a list of strings, or anything
  else (which \<^verbatim>\<open>_parse_step\<close> ignores).
\<close>

datatype depends_val = DepStr string | DepList "string list" | DepOther

text \<open>
  A step as the YAML document gives it: the keys \<^verbatim>\<open>_parse_step\<close> reads with
  \<^verbatim>\<open>step_data.get\<close>. \<open>None\<close> is an absent key (or a null). For \<^verbatim>\<open>on_failure\<close>, which is read
  with the default \<^verbatim>\<open>'fail'\<close>, the two differ: \<open>None\<close> is the absent key, \<open>Some None\<close> a null
  and \<open>Some (Some s)\<close> a string. Keys that are only copied into the step (name, description,
  timeout, retry, outputs, model, headers, ...) are left out.
\<close>

datatype step_data = StepData
  (sd_id: "string option")
  (sd_type: "string option")
  (sd_depends_on: "depends_val option")
  (sd_when: "string option")
  (sd_cache: "json dict")
  (sd_inputs: "json dict")
  (sd_command: "string option")
  (sd_prompt: "string option")
  (sd_condition: "string option")
  (sd_message: "string option")
  (sd_on_failure: "string option option")
  (sd_template: "string option")
  (sd_output: "string option")
  (sd_url: "string option")
  (sd_then_steps: "step_data list")
  (sd_else_steps: "step_data list")

text \<open>The dataclass \<^verbatim>\<open>WorkflowStep\<close>, with the fields the modelled functions read. Its
  \<^verbatim>\<open>on_failure\<close> is a string by default and by annotation, and \<open>None\<close> when the document gives
  a null.\<close>

datatype WorkflowStep = WorkflowStep
  (step_id: string)
  (step_type: string)
  (depends_on: "string list")
  (when_cond: "string option")
  (cache: "json dict")
  (inputs: "json dict")
  (command: "string option")
  (prompt: "string option")
  (condition: "string option")
  (message: "string option")
  (on_failure: "string option")
  (template: "string option")
  (output_path: "string option")
  (url: "string option")
  (then_steps: "WorkflowStep list")
  (else_steps: "WorkflowStep list")

text \<open>The dataclass \<^verbatim>\<open>WorkflowOutput\<close>: its name and its \<^verbatim>\<open>from_step\<close> reference.\<close>

record WorkflowOutput =
  output_name :: string
  from_step :: "string option"

text \<open>The dataclass \<^verbatim>\<open>WorkflowInput\<close>: its name and its \<^verbatim>\<open>required\<close> flag.\<close>

record WorkflowInput =
  input_name :: string
  required :: bool

text \<open>The top-level document: the keys \<^verbatim>\<open>parse_workflow_data\<close> checks or parses into
  something a later function reads. An input's configuration is its \<^verbatim>\<open>required\<close> key, an
  output's is its \<^verbatim>\<open>from\<close> key (\<open>None\<close> when the key is absent).\<close>

record workflow_data =
  wd_name :: "string option"
  wd_version :: "string option"
  wd_inputs :: "(bool option) dict"
  wd_outputs :: "(string option) dict"
  wd_steps :: "step_data list"

text \<open>The dataclass \<^verbatim>\<open>WorkflowDefinition\<close> with its two computed fields.\<close>

record WorkflowDefinition =
  wf_name :: string
  wf_version :: string
  wf_inputs :: "WorkflowInput dict"
  wf_outputs :: "WorkflowOutput dict"
  wf_steps :: "WorkflowStep list"
  step_dependency_graph :: "(string list) dict"
  execution_order :: "string list"

subsection \<open>\<^verbatim>\<open>_parse_step\<close>\<close>

text \<open>
  The checks are in the source's order: id, type, then the required field of the step's
  type; a conditional step checks its condition before it parses its nested steps, then
  branch first. A type outside the six known ones is accepted as it is.
\<close>

fun parse_step :: "step_data \<Rightarrow> error + WorkflowStep"
  and parse_step_list :: "step_data list \<Rightarrow> error + WorkflowStep list" where
  "parse_step (StepData i t dep w c inp cmd pr cond msg onf tpl outp u ths els) =
     (if \<not> truthy_str i then Inl (WorkflowValidationError ''Step id is required'')
      else if \<not> truthy_str t then
        Inl (WorkflowValidationError (''Step type is required for step '' @ the i))
      else
        let sid = the i; ty = the t;
            deps = (case dep of None \<Rightarrow> [] | Some (DepStr s) \<Rightarrow> [s]
                    | Some (DepList l) \<Rightarrow> l | Some DepOther \<Rightarrow> []);
            base = WorkflowStep sid ty deps w c inp None None None None (Some ''fail'') None None None [] []
        in
        if ty = ''shell'' then
          (if \<not> truthy_str cmd
           then Inl (WorkflowValidationError (''Shell step '' @ sid @ '' requires command''))
           else Inr (WorkflowStep sid ty deps w c inp cmd None None None (Some ''fail'') None None None [] []))
        else if ty = ''claude_code'' then
          (if \<not> truthy_str pr
           then Inl (WorkflowValidationError (''Claude code step '' @ sid @ '' requires prompt''))
           else Inr (WorkflowStep sid ty deps w c inp None pr None None (Some ''fail'') None None None [] []))
        else if ty = ''assert'' then
          (if \<not> truthy_str cond
           then Inl (WorkflowValidationError (''Assert step '' @ sid @ '' requires condition''))
           else Inr (WorkflowStep sid ty deps w c inp None None cond msg
                       (case onf of None \<Rightarrow> Some ''fail'' | Some p \<Rightarrow> p) None None None [] []))
        else if ty = ''template'' then
          (if \<not> truthy_str tpl \<or> \<not> truthy_str outp
           then Inl (WorkflowValidationError
                       (''Template step '' @ sid @ '' requires template and output''))
           else Inr (WorkflowStep sid ty deps w c inp None None None None (Some ''fail'') tpl outp None [] []))
        else if ty = ''webhook'' then
          (if \<not> truthy_str u
           then Inl (WorkflowValidationError (''Webhook step '' @ sid @ '' requires url''))
           else Inr (WorkflowStep sid ty deps w c inp None None None None (Some ''fail'') None None u [] []))
        else if ty = ''conditional'' then
          (if \<not> truthy_str cond
           then Inl (WorkflowValidationError
                       (''Conditional step '' @ sid @ '' requires condition''))
           else (case parse_step_list ths of
                   Inl e \<Rightarrow> Inl e
                 | Inr ts \<Rightarrow>
                     (case parse_step_list els of
                        Inl e \<Rightarrow> Inl e
                      | Inr es \<Rightarrow>
                          Inr (WorkflowStep sid ty deps w c inp None None cond None (Some ''fail'')
                                 None None None ts es))))
        else Inr base)"
| "parse_step_list [] = Inr []"
| "parse_step_list (sd # sds) =
     (case parse_step sd of
        Inl e \<Rightarrow> Inl e
      | Inr s \<Rightarrow> (case parse_step_list sds of Inl e \<Rightarrow> Inl e | Inr ss \<Rightarrow> Inr (s # ss)))"

subsection \<open>\<^verbatim>\<open>_build_dependency_graph\<close>\<close>

text \<open>The inner loop over \<^verbatim>\<open>step.depends_on\<close>: an unknown dependency raises, a known
  one is added to the step's set.\<close>

fun add_dependencies :: "string set \<Rightarrow> string \<Rightarrow> string list \<Rightarrow> string list \<Rightarrow> error + string list" where
  "add_dependencies step_ids sid [] acc = Inr acc"
| "add_dependencies step_ids sid (d # ds) acc =
     (if d \<notin> step_ids
      then Inl (WorkflowValidationError (''Step '' @ sid @ '' depends on unknown step: '' @ d))
      else add_dependencies step_ids sid ds (set_add d acc))"

text \<open>The outer loop: \<^verbatim>\<open>graph[step.id] = set()\<close> and then the dependencies; a second
  step with the same id overwrites the entry of the first.\<close>

fun build_graph_loop :: "string set \<Rightarrow> WorkflowStep list \<Rightarrow> (string list) dict \<Rightarrow> error + (string list) dict" where
  "build_graph_loop step_ids [] g = Inr g"
| "build_graph_loop step_ids (s # ss) g =
     (case add_dependencies step_ids (step_id s) (depends_on s) [] of
        Inl e \<Rightarrow> Inl e
      | Inr deps \<Rightarrow> build_graph_loop step_ids ss (dict_set (step_id s) deps g))"

definition build_dependency_graph :: "WorkflowDefinition \<Rightarrow> error + WorkflowDefinition" where
  "build_dependency_graph wfd =
     (case build_graph_loop (set (map step_id (wf_steps wfd))) (wf_steps wfd) [] of
        Inl e \<Rightarrow> Inl e
      | Inr g \<Rightarrow> Inr (wfd\<lparr>step_dependency_graph := g\<rparr>))"

subsection \<open>\<^verbatim>\<open>_compute_execution_order\<close>: Kahn's algorithm\<close>

text \<open>
  \<^verbatim>\<open>in_degree\<close> is a dict from step id to a Python integer. Every key the source reads
  with \<^verbatim>\<open>in_degree[k]\<close> is a key of the graph, and \<^verbatim>\<open>in_degree\<close> starts with all of them
  and never loses one, so the \<^verbatim>\<open>KeyError\<close> of a missing key cannot arise
  (\<open>dict_modify\<close> leaves the list unchanged there).
\<close>

text \<open>\<^verbatim>\<open>for dependency in dependencies: in_degree[dependency] = in_degree.get(dependency, 0)\<close>\<close>

fun touch_dependencies :: "string list \<Rightarrow> int dict \<Rightarrow> int dict" where
  "touch_dependencies [] deg = deg"
| "touch_dependencies (d # ds) deg = touch_dependencies ds (dict_set d (dict_get deg d 0) deg)"

text \<open>\<^verbatim>\<open>for dependency in dependencies: in_degree[step_id] += 1\<close>\<close>

fun count_dependencies :: "string \<Rightarrow> string list \<Rightarrow> int dict \<Rightarrow> int dict" where
  "count_dependencies sid [] deg = deg"
| "count_dependencies sid (d # ds) deg =
     count_dependencies sid ds (dict_modify sid (\<lambda>n. n + 1) deg)"

text \<open>The loop over \<^verbatim>\<open>workflow.step_dependency_graph.items()\<close> that fills \<^verbatim>\<open>in_degree\<close>.\<close>

fun calculate_in_degrees :: "(string list) dict \<Rightarrow> int dict \<Rightarrow> int dict" where
  "calculate_in_degrees [] deg = deg"
| "calculate_in_degrees ((sid, deps) # g) deg =
     calculate_in_degrees g (count_dependencies sid deps (touch_dependencies deps deg))"

text \<open>
  The \<^verbatim>\<open>for step_id in workflow.step_dependency_graph\<close> loop inside the \<^verbatim>\<open>while\<close>: every
  step that depends on \<open>current\<close> loses one in-degree and joins the queue when it reaches
  zero.
\<close>

fun remove_edges :: "(string list) dict \<Rightarrow> string \<Rightarrow> int dict \<times> string list \<Rightarrow> int dict \<times> string list" where
  "remove_edges [] current (deg, queue) = (deg, queue)"
| "remove_edges ((sid, deps) # g) current (deg, queue) =
     (if current \<in> set deps then
        (let deg' = dict_modify sid (\<lambda>n. n - 1) deg
         in remove_edges g current
              (deg', if map_of deg' sid = Some 0 then queue @ [sid] else queue))
      else remove_edges g current (deg, queue))"

text \<open>The measure of the \<^verbatim>\<open>while queue\<close> loop: the queue's length and, for every entry of
  the graph, the in-degree of its step while that is positive.\<close>

definition pending :: "int dict \<Rightarrow> string \<Rightarrow> nat" where
  "pending deg k = (case map_of deg k of Some v \<Rightarrow> nat v | None \<Rightarrow> 0)"

definition loop_measure :: "(string list) dict \<Rightarrow> int dict \<Rightarrow> string list \<Rightarrow> nat" where
  "loop_measure g deg queue = length queue + sum_list (map (\<lambda>e. pending deg (fst e)) g)"

text \<open>
  The \<^verbatim>\<open>while queue\<close> loop: \<^verbatim>\<open>current = queue.pop(0)\<close>,
  \<^verbatim>\<open>execution_order.append(current)\<close>, then the edges of \<open>current\<close> are removed.
\<close>

function kahn_loop :: "(string list) dict \<Rightarrow> int dict \<Rightarrow> string list \<Rightarrow> string list \<Rightarrow> string list" where
  "kahn_loop g deg [] order = order"
| "kahn_loop g deg (current # queue) order =
     (case remove_edges g current (deg, queue) of
        (deg', queue') \<Rightarrow> kahn_loop g deg' queue' (order @ [current]))"
  by pat_completeness auto

lemma map_of_dict_modify:
  "map_of (dict_modify k f d) = (map_of d)(k := map_option f (map_of d k))"
  by (induction d) auto

lemma pending_modify_le: "pending (dict_modify sid (\<lambda>n. n - 1) deg) k \<le> pending deg k"
  by (auto simp: pending_def map_of_dict_modify split: option.splits)

lemma sum_pending_modify_le:
  "sum_list (map (\<lambda>e. pending (dict_modify sid (\<lambda>n. n - 1) deg) (fst e)) g)
     \<le> sum_list (map (\<lambda>e. pending deg (fst e)) g)"
  by (rule sum_list_mono) (simp add: pending_modify_le)

lemma sum_pending_modify_less:
  assumes "(sid, deps) \<in> set G"
    and "map_of (dict_modify sid (\<lambda>n. n - 1) deg) sid = Some 0"
  shows "Suc (sum_list (map (\<lambda>e. pending (dict_modify sid (\<lambda>n. n - 1) deg) (fst e)) G))
     \<le> sum_list (map (\<lambda>e. pending deg (fst e)) G)"
  using assms(1)
proof (induction G)
  case Nil
  then show ?case by simp
next
  case (Cons e G)
  have one: "map_of deg sid = Some 1"
    using assms(2) by (auto simp: map_of_dict_modify split: option.splits)
  show ?case
  proof (cases "e = (sid, deps)")
    case True
    have "pending (dict_modify sid (\<lambda>n. n - 1) deg) sid = 0"
      using assms(2) by (simp add: pending_def)
    moreover have "pending deg sid = 1"
      using one by (simp add: pending_def)
    ultimately show ?thesis
      using True sum_pending_modify_le[of sid deg G] by simp
  next
    case False
    then have "(sid, deps) \<in> set G"
      using Cons.prems by auto
    from Cons.IH[OF this] pending_modify_le[of sid deg "fst e"] show ?thesis
      by simp
  qed
qed

lemma remove_edges_measure:
  "set g \<subseteq> set G \<Longrightarrow> remove_edges g cur (deg, q) = (deg', q') \<Longrightarrow>
     loop_measure G deg' q' \<le> loop_measure G deg q"
proof (induction g arbitrary: deg q)
  case Nil
  then show ?case by simp
next
  case (Cons e g)
  obtain sid deps where e: "e = (sid, deps)"
    by (cases e)
  show ?case
  proof (cases "cur \<in> set deps")
    case False
    then show ?thesis
      using Cons e by simp
  next
    case True
    let ?d = "dict_modify sid (\<lambda>n. n - 1) deg"
    let ?q = "if map_of ?d sid = Some 0 then q @ [sid] else q"
    have r: "remove_edges g cur (?d, ?q) = (deg', q')"
      using Cons.prems(2) True e by (simp add: Let_def)
    have sub: "set g \<subseteq> set G"
      using Cons.prems(1) by auto
    have 1: "loop_measure G deg' q' \<le> loop_measure G ?d ?q"
      by (rule Cons.IH[OF sub r])
    have mem: "(sid, deps) \<in> set G"
      using Cons.prems(1) e by auto
    have 2: "loop_measure G ?d ?q \<le> loop_measure G deg q"
      using sum_pending_modify_less[OF mem, of deg] sum_pending_modify_le[of sid deg G]
      by (auto simp: loop_measure_def)
    from 1 2 show ?thesis
      by simp
  qed
qed

lemma kahn_loop_decreases:
  assumes "(deg', queue') = remove_edges g current (deg, queue)"
  shows "loop_measure g deg' queue' < loop_measure g deg (current # queue)"
proof -
  have "remove_edges g current (deg, queue) = (deg', queue')"
    using assms by simp
  from remove_edges_measure[OF subset_refl this]
  have "loop_measure g deg' queue' \<le> loop_measure g deg queue" .
  also have "\<dots> < loop_measure g deg (current # queue)"
    by (simp add: loop_measure_def)
  finally show ?thesis .
qed

termination kahn_loop
  by (relation "measure (\<lambda>(g, deg, queue, order). loop_measure g deg queue)")
    (simp_all add: kahn_loop_decreases)

text \<open>
  \<^verbatim>\<open>_compute_execution_order\<close>: the in-degrees, the queue of the steps with in-degree zero
  (in dict order), the loop, and the length check that stands for cycle detection.
\<close>

definition compute_execution_order :: "WorkflowDefinition \<Rightarrow> error + WorkflowDefinition" where
  "compute_execution_order wfd =
     (let g = step_dependency_graph wfd;
          in_degree = calculate_in_degrees g (map (\<lambda>e. (fst e, 0)) g);
          queue = map fst (filter (\<lambda>e. snd e = 0) in_degree);
          order = kahn_loop g in_degree queue []
      in if length order \<noteq> length (wf_steps wfd)
         then Inl (WorkflowValidationError ''Circular dependency detected in workflow steps'')
         else Inr (wfd\<lparr>execution_order := order\<rparr>))"

subsection \<open>\<^verbatim>\<open>parse_workflow_data\<close>\<close>

text \<open>
  The schema file \<^verbatim>\<open>../schema/workflow_schema.yaml\<close> is not part of the sources, so the
  schema check is a parameter: \<open>None\<close> when no schema was loaded, otherwise the function
  that gives the message of \<^verbatim>\<open>jsonschema.ValidationError\<close> for a document it rejects.
\<close>

definition parse_inputs :: "(bool option) dict \<Rightarrow> WorkflowInput dict" where
  "parse_inputs ins =
     foldl (\<lambda>acc e. dict_set (fst e)
              \<lparr>input_name = fst e, required = (case snd e of None \<Rightarrow> False | Some b \<Rightarrow> b)\<rparr> acc) [] ins"

definition parse_outputs :: "(string option) dict \<Rightarrow> WorkflowOutput dict" where
  "parse_outputs outs =
     foldl (\<lambda>acc e. dict_set (fst e) \<lparr>output_name = fst e, from_step = snd e\<rparr> acc) [] outs"

definition schema_error :: "(workflow_data \<Rightarrow> string option) option \<Rightarrow> workflow_data \<Rightarrow> string option" where
  "schema_error schema wd = (case schema of None \<Rightarrow> None | Some validate \<Rightarrow> validate wd)"

definition parse_workflow_data ::
  "(workflow_data \<Rightarrow> string option) option \<Rightarrow> workflow_data \<Rightarrow> error + WorkflowDefinition" where
  "parse_workflow_data schema wd =
     (case schema_error schema wd of
        Some msg \<Rightarrow> Inl (WorkflowValidationError (''Workflow validation error: '' @ msg))
      | None \<Rightarrow>
          if \<not> truthy_str (wd_name wd) then
            Inl (WorkflowValidationError ''Workflow name is required'')
          else if \<not> truthy_str (wd_version wd) then
            Inl (WorkflowValidationError ''Workflow version is required'')
          else if wd_steps wd = [] then
            Inl (WorkflowValidationError ''Workflow must have at least one step'')
          else
            (case parse_step_list (wd_steps wd) of
               Inl e \<Rightarrow> Inl e
             | Inr ss \<Rightarrow>
                 (case build_dependency_graph
                         \<lparr>wf_name = the (wd_name wd), wf_version = the (wd_version wd),
                          wf_inputs = parse_inputs (wd_inputs wd),
                          wf_outputs = parse_outputs (wd_outputs wd), wf_steps = ss,
                          step_dependency_graph = [], execution_order = []\<rparr> of
                    Inl e \<Rightarrow> Inl e
                  | Inr wfd \<Rightarrow> compute_execution_order wfd)))"

subsection \<open>\<^verbatim>\<open>validate_workflow\<close>\<close>

text \<open>\<^verbatim>\<open>s.split(c)\<close> for a one-character separator: the parts between the separators, one
  more than there are separators.\<close>

fun split_on :: "char \<Rightarrow> string \<Rightarrow> string list" where
  "split_on c [] = [[]]"
| "split_on c (x # xs) =
     (if x = c then [] # split_on c xs
      else (case split_on c xs of [] \<Rightarrow> [[x]] | p # ps \<Rightarrow> (x # p) # ps))"

text \<open>\<^verbatim>\<open>s.startswith(p)\<close> and \<^verbatim>\<open>sub in s\<close>.\<close>

fun starts_with :: "string \<Rightarrow> string \<Rightarrow> bool" where
  "starts_with s [] = True"
| "starts_with [] (p # ps) = False"
| "starts_with (x # xs) (p # ps) = (x = p \<and> starts_with xs ps)"

fun contains_str :: "string \<Rightarrow> string \<Rightarrow> bool" where
  "contains_str [] sub = (sub = [])"
| "contains_str (x # xs) sub = (starts_with (x # xs) sub \<or> contains_str xs sub)"

text \<open>The loop over \<^verbatim>\<open>workflow.outputs.items()\<close>: an output whose \<^verbatim>\<open>from_step\<close> has at
  least two dot-separated parts and whose first part is not a step id adds an issue.\<close>

definition output_issues :: "string list \<Rightarrow> WorkflowOutput dict \<Rightarrow> string list" where
  "output_issues step_ids outs =
     concat (map (\<lambda>e.
       (case from_step (snd e) of
          None \<Rightarrow> []
        | Some ref \<Rightarrow>
            if ref = [] then []
            else (let parts = split_on (CHR ''.'') ref
                  in if 2 \<le> length parts
                     then (if hd parts \<notin> set step_ids
                           then [''Output '' @ fst e @ '' references unknown step: '' @ hd parts]
                           else [])
                     else []))) outs)"

text \<open>
  The loop over the steps' inputs. \<open>step_ref\<close> stands for the library call
  \<^verbatim>\<open>re.search(r'([a-z][a-z0-9_]*).outputs', input_value)\<close>: the text of group 1 when the
  pattern is found.
\<close>

definition input_issues :: "(string \<Rightarrow> string option) \<Rightarrow> string list \<Rightarrow> WorkflowStep list \<Rightarrow> string list" where
  "input_issues step_ref step_ids ss =
     concat (map (\<lambda>s. concat (map (\<lambda>e.
       (case snd e of
          JStr v \<Rightarrow>
            if CHR ''.'' \<in> set v \<and> starts_with v ''{{'' \<and> contains_str v ''.outputs.''
            then (case step_ref v of
                    None \<Rightarrow> []
                  | Some r \<Rightarrow>
                      if r \<notin> set step_ids
                      then [''Step '' @ step_id s @ '' references unknown step: '' @ r]
                      else [])
            else []
        | _ \<Rightarrow> [])) (inputs s))) ss)"

text \<open>\<^verbatim>\<open>validate_workflow\<close> returns its list of issues; it raises nothing.\<close>

definition validate_workflow :: "(string \<Rightarrow> string option) \<Rightarrow> WorkflowDefinition \<Rightarrow> string list" where
  "validate_workflow step_ref wfd =
     (let step_ids = map step_id (wf_steps wfd)
      in (if length step_ids \<noteq> card (set step_ids) then [''Duplicate step IDs found''] else [])
         @ output_issues step_ids (wf_outputs wfd)
         @ input_issues step_ref step_ids (wf_steps wfd))"

section \<open>The secure engine (\<^verbatim>\<open>secure_workflow_engine.py\<close>)\<close>

subsection \<open>Strings\<close>

text \<open>
  A character is a code point below 256 (the patterns and messages of the source are ASCII
  text). \<open>show_nat\<close> is \<^verbatim>\<open>str(n)\<close> for a natural number, \<open>py_lower\<close> is \<^verbatim>\<open>s.lower()\<close>, \<open>py_strip\<close>
  is \<^verbatim>\<open>s.strip()\<close>, \<open>join\<close> is \<^verbatim>\<open>sep.join(parts)\<close>. \<open>is_space\<close> is \<^verbatim>\<open>str.isspace\<close> on one
  character, which is also the class \<^verbatim>\<open>\s\<close> of \<^verbatim>\<open>re\<close> on text: the five ASCII controls
  \<open>0x09\<close> to \<open>0x0D\<close>, the four separators \<open>0x1C\<close> to \<open>0x1F\<close>, the blank, the next-line control
  \<open>0x85\<close> and the no-break space \<open>0xA0\<close>. \<open>lower_char\<close> lowers the letters \<^verbatim>\<open>A\<close> to \<^verbatim>\<open>Z\<close> and the
  capital letters of Latin-1 (\<open>0xC0\<close> to \<open>0xDE\<close> but the multiplication sign \<open>0xD7\<close>), as
  \<^verbatim>\<open>str.lower\<close> does.
\<close>

definition digit_char :: "nat \<Rightarrow> char" where
  "digit_char d = ''0123456789'' ! d"

fun show_nat :: "nat \<Rightarrow> string" where
  "show_nat n =
     (if n < 10 then [digit_char n] else show_nat (n div 10) @ [digit_char (n mod 10)])"

declare show_nat.simps [simp del]

definition is_space :: "char \<Rightarrow> bool" where
  "is_space c =
     (c \<in> set [CHR 0x09, CHR 0x0A, CHR 0x0B, CHR 0x0C, CHR 0x0D,
                CHR 0x1C, CHR 0x1D, CHR 0x1E, CHR 0x1F, CHR 0x20,
                CHR 0x85, CHR 0xA0])"

definition latin1_upper :: string where
  "latin1_upper =
     [CHR 0xC0, CHR 0xC1, CHR 0xC2, CHR 0xC3, CHR 0xC4, CHR 0xC5, CHR 0xC6, CHR 0xC7,
      CHR 0xC8, CHR 0xC9, CHR 0xCA, CHR 0xCB, CHR 0xCC, CHR 0xCD, CHR 0xCE, CHR 0xCF,
      CHR 0xD0, CHR 0xD1, CHR 0xD2, CHR 0xD3, CHR 0xD4, CHR 0xD5, CHR 0xD6,
      CHR 0xD8, CHR 0xD9, CHR 0xDA, CHR 0xDB, CHR 0xDC, CHR 0xDD, CHR 0xDE]"

definition latin1_lower :: string where
  "latin1_lower =
     [CHR 0xE0, CHR 0xE1, CHR 0xE2, CHR 0xE3, CHR 0xE4, CHR 0xE5, CHR 0xE6, CHR 0xE7,
      CHR 0xE8, CHR 0xE9, CHR 0xEA, CHR 0xEB, CHR 0xEC, CHR 0xED, CHR 0xEE, CHR 0xEF,
      CHR 0xF0, CHR 0xF1, CHR 0xF2, CHR 0xF3, CHR 0xF4, CHR 0xF5, CHR 0xF6,
      CHR 0xF8, CHR 0xF9, CHR 0xFA, CHR 0xFB, CHR 0xFC, CHR 0xFD, CHR 0xFE]"

definition lower_char :: "char \<Rightarrow> char" where
  "lower_char c =
     (case map_of (zip (''ABCDEFGHIJKLMNOPQRSTUVWXYZ'' @ latin1_upper)
                       (''abcdefghijklmnopqrstuvwxyz'' @ latin1_lower)) c of
        Some l \<Rightarrow> l
      | None \<Rightarrow> c)"

definition py_lower :: "string \<Rightarrow> string" where
  "py_lower s = map lower_char s"

definition py_strip :: "string \<Rightarrow> string" where
  "py_strip s = rev (dropWhile is_space (rev (dropWhile is_space s)))"

fun join :: "string \<Rightarrow> string list \<Rightarrow> string" where
  "join sep [] = []"
| "join sep [p] = p"
| "join sep (p # q # ps) = p @ sep @ join sep (q # ps)"

subsection \<open>The regular expressions of the validator\<close>

text \<open>
  The patterns of \<^verbatim>\<open>SecureInputValidator\<close> use a small part of Python's \<^verbatim>\<open>re\<close> syntax: a
  sequence of atoms, each a literal character, an escaped character (\<^verbatim>\<open>\(\<close>, \<^verbatim>\<open>\.\<close>, ...),
  \<^verbatim>\<open>\s\<close>, \<^verbatim>\<open>.\<close> or a negated one-character class \<^verbatim>\<open>[^c]\<close>, and each followed by nothing,
  \<^verbatim>\<open>*\<close> or \<^verbatim>\<open>+\<close>. \<open>parse_re\<close> reads a pattern's text into that sequence, and \<open>re_search\<close> is
  \<^verbatim>\<open>re.search(pattern, s, re.IGNORECASE)\<close> seen as a truth value: some substring of \<open>s\<close>
  matches. The backslash is \<open>CHR 0x5C\<close> and the backtick \<open>CHR 0x60\<close>.
\<close>

datatype re_class = Lit char | AnyChar | Space | NotChar char

datatype re_quant = Once | Star | Plus

fun parse_re :: "string \<Rightarrow> (re_class \<times> re_quant) list"
  and parse_quant :: "re_class \<Rightarrow> string \<Rightarrow> (re_class \<times> re_quant) list" where
  "parse_re [] = []"
| "parse_re [c] = [(if c = CHR ''.'' then AnyChar else Lit c, Once)]"
| "parse_re (c # d # r) =
     (if c = CHR 0x5C then parse_quant (if d = CHR ''s'' then Space else Lit d) r
      else if c = CHR ''.'' then parse_quant AnyChar (d # r)
      else if c = CHR ''['' \<and> d = CHR ''^'' then
        (case r of
           x # y # r' \<Rightarrow> if y = CHR '']'' then parse_quant (NotChar x) r'
                          else parse_quant (Lit c) (d # r)
         | _ \<Rightarrow> parse_quant (Lit c) (d # r))
      else parse_quant (Lit c) (d # r))"
| "parse_quant cl [] = [(cl, Once)]"
| "parse_quant cl (q # r) =
     (if q = CHR ''*'' then (cl, Star) # parse_re r
      else if q = CHR ''+'' then (cl, Plus) # parse_re r
      else (cl, Once) # parse_re (q # r))"

text \<open>Whether a character is in a class, ignoring case; \<^verbatim>\<open>.\<close> is any character but a
  newline.\<close>

fun in_class :: "re_class \<Rightarrow> char \<Rightarrow> bool" where
  "in_class (Lit c) x = (lower_char x = lower_char c)"
| "in_class AnyChar x = (x \<noteq> CHR 0x0A)"
| "in_class Space x = is_space x"
| "in_class (NotChar c) x = (lower_char x \<noteq> lower_char c)"

text \<open>Whether some prefix of the string matches the sequence.\<close>

fun match_here :: "(re_class \<times> re_quant) list \<Rightarrow> string \<Rightarrow> bool" where
  "match_here [] s = True"
| "match_here ((cl, Once) # ps) [] = False"
| "match_here ((cl, Once) # ps) (x # xs) = (in_class cl x \<and> match_here ps xs)"
| "match_here ((cl, Star) # ps) [] = match_here ps []"
| "match_here ((cl, Star) # ps) (x # xs) =
     (match_here ps (x # xs) \<or> (in_class cl x \<and> match_here ((cl, Star) # ps) xs))"
| "match_here ((cl, Plus) # ps) [] = False"
| "match_here ((cl, Plus) # ps) (x # xs) = (in_class cl x \<and> match_here ((cl, Star) # ps) xs)"

fun search_from :: "(re_class \<times> re_quant) list \<Rightarrow> string \<Rightarrow> bool" where
  "search_from ps [] = match_here ps []"
| "search_from ps (x # xs) = (match_here ps (x # xs) \<or> search_from ps xs)"

definition re_search :: "string \<Rightarrow> string \<Rightarrow> bool" where
  "re_search pattern s = search_from (parse_re pattern) s"

subsection \<open>\<^verbatim>\<open>SecureInputValidator\<close>\<close>

text \<open>
  The pattern lists are the source's, character for character; \<open>bs\<close> is the backslash and
  \<open>bq\<close> the backtick. (In the source the line that compiles \<^verbatim>\<open>pattern_regex\<close> stands,
  wrongly indented, after \<^verbatim>\<open>SAFE_COMMANDS\<close>; it is read as the last line of
  \<^verbatim>\<open>_configure_patterns\<close>, which is where \<^verbatim>\<open>self\<close> is bound.)
\<close>

abbreviation bs :: string where
  "bs \<equiv> [CHR 0x5C]"

abbreviation bq :: string where
  "bq \<equiv> [CHR 0x60]"

definition base_patterns :: "string list" where
  "base_patterns =
     [''__import__'',
      ''exec'' @ bs @ ''s*'' @ bs @ ''('',
      ''eval'' @ bs @ ''s*'' @ bs @ ''('',
      ''getattr'' @ bs @ ''s*'' @ bs @ ''(.*__builtins__'',
      ''globals'' @ bs @ ''s*'' @ bs @ ''('' @ bs @ '')'',
      ''__builtins__'',
      ''__globals__'',
      bs @ ''.mro'' @ bs @ ''('' @ bs @ '')'',
      bs @ ''.subclasses'' @ bs @ ''('' @ bs @ '')'']"

definition standard_patterns :: "string list" where
  "standard_patterns =
     [''compile'' @ bs @ ''s*'' @ bs @ ''('',
      ''getattr'' @ bs @ ''s*'' @ bs @ ''('',
      ''setattr'' @ bs @ ''s*'' @ bs @ ''('',
      ''delattr'' @ bs @ ''s*'' @ bs @ ''('',
      ''locals'' @ bs @ ''s*'' @ bs @ ''('',
      ''vars'' @ bs @ ''s*'' @ bs @ ''('',
      ''dir'' @ bs @ ''s*'' @ bs @ ''('',
      ''subprocess'',
      ''os'' @ bs @ ''.system'',
      ''os'' @ bs @ ''.popen'',
      ''os'' @ bs @ ''.spawn'',
      ''os'' @ bs @ ''.exec'',
      ''commands'' @ bs @ ''.'',
      ''importlib'']"

definition strict_patterns :: "string list" where
  "strict_patterns =
     [''open'' @ bs @ ''s*'' @ bs @ ''('',
      ''file'' @ bs @ ''s*'' @ bs @ ''('',
      ''input'' @ bs @ ''s*'' @ bs @ ''('',
      ''raw_input'' @ bs @ ''s*'' @ bs @ ''('']"

text \<open>\<^verbatim>\<open>_configure_patterns\<close>: the patterns of a strictness level.\<close>

definition DANGEROUS_PATTERNS :: "string \<Rightarrow> string list" where
  "DANGEROUS_PATTERNS strictness_level =
     base_patterns
     @ (if strictness_level \<in> set [''standard'', ''strict'', ''paranoid'']
        then standard_patterns else [])
     @ (if strictness_level \<in> set [''strict'', ''paranoid''] then strict_patterns else [])"

text \<open>\<^verbatim>\<open>create_for_profile\<close>: the strictness level of a security profile.\<close>

definition create_for_profile :: "string \<Rightarrow> string" where
  "create_for_profile security_profile =
     dict_get [(''plan_only'', ''paranoid''), (''restricted'', ''strict''),
               (''standard'', ''standard''), (''elevated'', ''permissive'')]
       security_profile ''standard''"

definition get_max_length :: "string \<Rightarrow> nat" where
  "get_max_length strictness_level =
     dict_get [(''permissive'', 50000), (''standard'', 10000), (''strict'', 5000),
               (''paranoid'', 2000)] strictness_level 10000"

text \<open>
  \<^verbatim>\<open>validate_string_input\<close>. The compiled regex is the alternation of the patterns, so it
  is found in the input exactly when one of the patterns is. The matched text is only
  logged (when detailed logging is on); the error's message does not hold it.
\<close>

definition validate_string_input :: "string \<Rightarrow> string \<Rightarrow> string \<Rightarrow> error + string" where
  "validate_string_input strictness_level v ctx_name =
     (if list_ex (\<lambda>p. re_search p v) (DANGEROUS_PATTERNS strictness_level) then
        Inl (SecurityError (''Security violation in '' @ ctx_name
               @ '': Potentially dangerous content detected. ''
               @ ''Pattern blocked for security. Check security profile settings.''))
      else if length v > get_max_length strictness_level then
        Inl (SecurityError (''Input too long in '' @ ctx_name @ '' (max ''
               @ show_nat (get_max_length strictness_level) @ '' characters for ''
               @ strictness_level @ '' profile)''))
      else Inr v)"

definition dangerous_shell_patterns :: "string list" where
  "dangerous_shell_patterns =
     ['';'' @ bs @ ''s*rm'' @ bs @ ''s+-rf'',
      ''&&'' @ bs @ ''s*rm'' @ bs @ ''s+-rf'',
      bs @ ''|'' @ bs @ ''s*sh'',
      bs @ ''|'' @ bs @ ''s*bash'',
      ''>'' @ bs @ ''s*/dev/'',
      ''curl.*'' @ bs @ ''|'' @ bs @ ''s*sh'',
      ''wget.*'' @ bs @ ''|'' @ bs @ ''s*sh'',
      bs @ ''$'' @ bs @ ''([^)]*'' @ bs @ '')'',
      bq @ ''[^'' @ bq @ '']*'' @ bq]"

text \<open>\<^verbatim>\<open>validate_shell_command\<close>: the string check, then the first shell pattern that is
  found raises with the pattern in the message. (The check against \<^verbatim>\<open>SAFE_COMMANDS\<close> only
  logs a warning.)\<close>

definition validate_shell_command :: "string \<Rightarrow> string \<Rightarrow> error + string" where
  "validate_shell_command strictness_level cmd =
     (case validate_string_input strictness_level cmd ''shell command'' of
        Inl e \<Rightarrow> Inl e
      | Inr c \<Rightarrow>
          (case find (\<lambda>p. re_search p c) dangerous_shell_patterns of
             Some p \<Rightarrow> Inl (SecurityError (''Dangerous shell pattern detected: '' @ p))
           | None \<Rightarrow> Inr c))"

definition injection_patterns :: "string list" where
  "injection_patterns =
     [bs @ ''{'' @ bs @ ''{.*__.*'' @ bs @ ''}'' @ bs @ ''}'',
      bs @ ''{'' @ bs @ ''{.*class.*'' @ bs @ ''}'' @ bs @ ''}'',
      bs @ ''{'' @ bs @ ''{.*mro.*'' @ bs @ ''}'' @ bs @ ''}'',
      bs @ ''{'' @ bs @ ''{.*subclasses.*'' @ bs @ ''}'' @ bs @ ''}'',
      bs @ ''{'' @ bs @ ''{.*globals.*'' @ bs @ ''}'' @ bs @ ''}'',
      bs @ ''{'' @ bs @ ''{.*builtins.*'' @ bs @ ''}'' @ bs @ ''}'',
      bs @ ''{'' @ bs @ ''{.*import.*'' @ bs @ ''}'' @ bs @ ''}'']"

text \<open>\<^verbatim>\<open>validate_template_content\<close>, of the same shape.\<close>

definition validate_template_content :: "string \<Rightarrow> string \<Rightarrow> error + string" where
  "validate_template_content strictness_level tpl =
     (case validate_string_input strictness_level tpl ''template'' of
        Inl e \<Rightarrow> Inl e
      | Inr t \<Rightarrow>
          (case find (\<lambda>p. re_search p t) injection_patterns of
             Some p \<Rightarrow> Inl (SecurityError (''Template injection pattern detected: '' @ p))
           | None \<Rightarrow> Inr t))"

subsection \<open>What the engine takes from libraries and from its configuration\<close>

text \<open>
  The hash, the expression evaluator, \<^verbatim>\<open>str\<close>, the regex substitutions that redact
  secrets, JSON string encoding and the clock are library code, and the limits are module
  constants the source names without defining (\<^verbatim>\<open>MAX_LOG_LENGTH\<close>, \<^verbatim>\<open>MAX_CACHE_ENTRIES\<close>);
  all are parameters, collected in one record.
  \<^item> \<open>sha256_hexdigest s\<close> is \<^verbatim>\<open>hashlib.sha256(s.encode()).hexdigest()\<close>;
  \<^item> \<open>simple_eval\<close> is \<open>None\<close> when \<^verbatim>\<open>simpleeval\<close> could not be imported
    (\<^verbatim>\<open>SIMPLEEVAL_AVAILABLE\<close> is false); otherwise it gives the value of an expression, or
    \<open>Inl\<close> the text of the exception it raises;
  \<^item> \<open>py_str v\<close> is \<^verbatim>\<open>str(v)\<close>; \<open>json_string s\<close> is \<^verbatim>\<open>json.dumps(s)\<close> for a string;
  \<^item> \<open>redact_output\<close> and \<open>redact_error\<close> are the \<^verbatim>\<open>re.sub\<close> calls of
    \<^verbatim>\<open>_sanitize_outputs\<close> and \<^verbatim>\<open>_sanitize_error\<close>;
  \<^item> \<open>timestamp\<close> is \<^verbatim>\<open>datetime.now(timezone.utc).isoformat()\<close> at a log entry.
\<close>

record library =
  sha256_hexdigest :: "string \<Rightarrow> string"
  simple_eval :: "(string \<Rightarrow> json dict \<Rightarrow> string + json) option"
  py_str :: "json \<Rightarrow> string"
  json_string :: "string \<Rightarrow> string"
  redact_output :: "string \<Rightarrow> string"
  redact_error :: "string \<Rightarrow> string"
  timestamp :: string
  MAX_LOG_LENGTH :: nat
  MAX_CACHE_ENTRIES :: nat

text \<open>\<^verbatim>\<open>str(e)\<close> for an exception: its message.\<close>

fun error_message :: "error \<Rightarrow> string" where
  "error_message (WorkflowParseError m) = m"
| "error_message (WorkflowValidationError m) = m"
| "error_message (SecurityError m) = m"

text \<open>\<^verbatim>\<open>bool(v)\<close>.\<close>

fun py_truthy :: "json \<Rightarrow> bool" where
  "py_truthy JNull = False"
| "py_truthy (JBool b) = b"
| "py_truthy (JInt n) = (n \<noteq> 0)"
| "py_truthy (JStr s) = (s \<noteq> [])"
| "py_truthy (JList xs) = (xs \<noteq> [])"
| "py_truthy (JDict d) = (d \<noteq> [])"

subsection \<open>\<^verbatim>\<open>json.dumps(..., sort_keys=True)\<close>\<close>

definition show_int :: "int \<Rightarrow> string" where
  "show_int n = (if n < 0 then ''-'' @ show_nat (nat (- n)) else show_nat (nat n))"

text \<open>
  The serialisation with sorted keys: the items of a dictionary are written in the order of
  their keys, whatever order the dictionary holds them in. (The values are serialised
  before the items are sorted, which gives the same text and keeps the recursion on the
  dictionary as it stands.)
\<close>

fun json_dumps :: "(string \<Rightarrow> string) \<Rightarrow> json \<Rightarrow> string" where
  "json_dumps enc JNull = ''null''"
| "json_dumps enc (JBool b) = (if b then ''true'' else ''false'')"
| "json_dumps enc (JInt n) = show_int n"
| "json_dumps enc (JStr s) = enc s"
| "json_dumps enc (JList xs) = ''['' @ join '', '' (map (json_dumps enc) xs) @ '']''"
| "json_dumps enc (JDict kvs) =
     ''{'' @ join '', ''
        (map (\<lambda>e. enc (fst e) @ '': '' @ snd e)
           (sort_key fst (map (\<lambda>e. (fst e, json_dumps enc (snd e))) kvs))) @ ''}''"

subsection \<open>Cache keys\<close>

text \<open>\<^verbatim>\<open>SecureWorkflowEngine._generate_cache_key\<close>; \<open>ctx\<close> is the execution context.\<close>

definition generate_cache_key_secure :: "library \<Rightarrow> WorkflowStep \<Rightarrow> json dict \<Rightarrow> string" where
  "generate_cache_key_secure lib step ctx =
     sha256_hexdigest lib
       (join ''|''
          [step_id step, step_type step,
           json_dumps (json_string lib) (JDict (inputs step)),
           json_dumps (json_string lib) (dict_get ctx ''inputs'' (JDict []))])"


subsection \<open>\<^verbatim>\<open>SecurityContext\<close>\<close>

record SecurityContext =
  user_id :: string
  permissions :: "string set"
  security_profile :: string
  audit_trail :: "string list"

definition has_permission :: "SecurityContext \<Rightarrow> string \<Rightarrow> bool" where
  "has_permission sc permission = (permission \<in> permissions sc \<or> ''admin'' \<in> permissions sc)"

text \<open>\<^verbatim>\<open>_sanitize_log_entry\<close>: control characters (0x00-0x1f, 0x7f-0x9f) are removed and
  the entry is cut at \<^verbatim>\<open>MAX_LOG_LENGTH\<close>.\<close>

definition sanitize_log_entry :: "library \<Rightarrow> string \<Rightarrow> string" where
  "sanitize_log_entry lib entry =
     take (MAX_LOG_LENGTH lib)
       (filter (\<lambda>c. \<not> ((of_char c :: nat) \<le> 31 \<or> (127 \<le> (of_char c :: nat) \<and> (of_char c :: nat) \<le> 159)))
          entry)"

definition log_security_event :: "library \<Rightarrow> string \<Rightarrow> SecurityContext \<Rightarrow> SecurityContext" where
  "log_security_event lib event sc =
     sc\<lparr>audit_trail := audit_trail sc @ [timestamp lib @ '': '' @ sanitize_log_entry lib event]\<rparr>"

subsection \<open>\<^verbatim>\<open>SecureExpressionEvaluator\<close>\<close>

text \<open>\<^verbatim>\<open>s.split(op, 1)\<close> when \<open>op\<close> occurs in \<open>s\<close>: the text before and after its first
  occurrence.\<close>

fun split_first :: "string \<Rightarrow> string \<Rightarrow> (string \<times> string) option" where
  "split_first sub [] = (if sub = [] then Some ([], []) else None)"
| "split_first sub (x # xs) =
     (if starts_with (x # xs) sub then Some ([], drop (length sub) (x # xs))
      else map_option (\<lambda>p. (x # fst p, snd p)) (split_first sub xs))"

text \<open>\<^verbatim>\<open>context.get(name, name)\<close> under \<^verbatim>\<open>str\<close>.\<close>

definition operand :: "library \<Rightarrow> json dict \<Rightarrow> string \<Rightarrow> string" where
  "operand lib ctx x = (case map_of ctx x of Some v \<Rightarrow> py_str lib v | None \<Rightarrow> x)"

text \<open>
  \<^verbatim>\<open>_basic_boolean_eval\<close>: literals, a variable of the context, then \<^verbatim>\<open>==\<close> and \<^verbatim>\<open>!=\<close>
  (the loop over the six operators returns only for these two); anything else is logged
  and is false.
\<close>

definition basic_boolean_eval :: "library \<Rightarrow> string \<Rightarrow> json dict \<Rightarrow> bool" where
  "basic_boolean_eval lib expression ctx =
     (let e = py_lower (py_strip expression)
      in if e \<in> set [''true'', ''1'', ''yes''] then True
         else if e \<in> set [''false'', ''0'', ''no'', ''''] then False
         else (case map_of ctx e of
                 Some v \<Rightarrow> py_truthy v
               | None \<Rightarrow>
                   (case split_first ''=='' e of
                      Some p \<Rightarrow> operand lib ctx (py_strip (fst p)) = operand lib ctx (py_strip (snd p))
                    | None \<Rightarrow>
                        (case split_first ''!='' e of
                           Some p \<Rightarrow>
                             operand lib ctx (py_strip (fst p)) \<noteq> operand lib ctx (py_strip (snd p))
                         | None \<Rightarrow> False))))"

text \<open>
  \<^verbatim>\<open>evaluate_condition\<close>. With \<^verbatim>\<open>simpleeval\<close>, an exception of the evaluation is turned into
  \<^verbatim>\<open>SecurityError\<close> and raised; without it the basic evaluation answers and nothing is
  raised.
\<close>

definition evaluate_condition :: "library \<Rightarrow> string \<Rightarrow> json dict \<Rightarrow> error + bool" where
  "evaluate_condition lib expression ctx =
     (case simple_eval lib of
        None \<Rightarrow> Inr (basic_boolean_eval lib expression ctx)
      | Some evaluate \<Rightarrow>
          (let e = py_strip expression
           in if e = [] then Inr False
              else if py_lower e \<in> set [''true'', ''1'', ''yes''] then Inr True
              else if py_lower e \<in> set [''false'', ''0'', ''no'', ''''] then Inr False
              else (case evaluate e ctx of
                      Inl exc \<Rightarrow> Inl (SecurityError (''Invalid expression: '' @ e))
                    | Inr v \<Rightarrow> Inr (py_truthy v))))"


subsection \<open>\<^verbatim>\<open>SecureStepResult\<close>\<close>

datatype ExecutionStatus =
  PENDING | RUNNING | COMPLETED | FAILED | SKIPPED | CACHED | TIMEOUT | TERMINATED

text \<open>The result of a step; its three time fields are left out.\<close>

record SecureStepResult =
  result_step_id :: string
  status :: ExecutionStatus
  outputs :: "json dict"
  error :: "string option"
  cached :: bool
  cache_key :: "string option"
  sanitized_stdout :: "string option"
  exit_code :: "int option"

definition new_result :: "string \<Rightarrow> ExecutionStatus \<Rightarrow> SecureStepResult" where
  "new_result sid st =
     \<lparr>result_step_id = sid, status = st, outputs = [], error = None, cached = False,
      cache_key = None, sanitized_stdout = None, exit_code = None\<rparr>"

definition sanitize_outputs :: "library \<Rightarrow> json dict \<Rightarrow> json dict" where
  "sanitize_outputs lib outs =
     foldl (\<lambda>acc e. dict_set (fst e)
              (case snd e of
                 JStr s \<Rightarrow> JStr (take 1000 (redact_output lib s))
               | JInt n \<Rightarrow> JInt n
               | JBool b \<Rightarrow> JBool b
               | v \<Rightarrow> JStr (take 1000 (py_str lib v))) acc) [] outs"

text \<open>\<^verbatim>\<open>set_completed(outputs)\<close>: the status becomes \<^verbatim>\<open>COMPLETED\<close> whatever it was; the
  outputs are replaced only by a non-empty dictionary.\<close>

definition set_completed :: "library \<Rightarrow> json dict option \<Rightarrow> SecureStepResult \<Rightarrow> SecureStepResult" where
  "set_completed lib outs r =
     (case outs of
        Some d \<Rightarrow>
          if d \<noteq> [] then r\<lparr>status := COMPLETED, outputs := sanitize_outputs lib d\<rparr>
          else r\<lparr>status := COMPLETED\<rparr>
      | None \<Rightarrow> r\<lparr>status := COMPLETED\<rparr>)"

definition set_failed :: "library \<Rightarrow> string \<Rightarrow> SecureStepResult \<Rightarrow> SecureStepResult" where
  "set_failed lib err r = r\<lparr>status := FAILED, error := Some (take 500 (redact_error lib err))\<rparr>"

subsection \<open>The step cache\<close>

record CacheEntry =
  entry_outputs :: "json dict"
  cached_at :: real
  ttl :: real

definition dict_delete :: "string \<Rightarrow> 'v dict \<Rightarrow> 'v dict" where
  "dict_delete k d = filter (\<lambda>e. fst e \<noteq> k) d"

text \<open>\<^verbatim>\<open>_get_cached_result\<close> at the time \<open>now\<close>: an expired entry is deleted and is a miss.\<close>

definition get_cached_result ::
  "real \<Rightarrow> string \<Rightarrow> CacheEntry dict \<Rightarrow> CacheEntry option \<times> CacheEntry dict" where
  "get_cached_result now k store =
     (case map_of store k of
        None \<Rightarrow> (None, store)
      | Some entry \<Rightarrow>
          if now - cached_at entry > ttl entry then (None, dict_delete k store)
          else (Some entry, store))"

text \<open>\<^verbatim>\<open>_cache_result\<close> at the time \<open>now\<close>: a full cache loses its ten oldest entries first.\<close>

definition cache_result ::
  "library \<Rightarrow> real \<Rightarrow> string \<Rightarrow> SecureStepResult \<Rightarrow> CacheEntry dict \<Rightarrow> CacheEntry dict" where
  "cache_result lib now k r store =
     dict_set k \<lparr>entry_outputs = outputs r, cached_at = now, ttl = 3600\<rparr>
       (if length store \<ge> MAX_CACHE_ENTRIES lib
        then foldl (\<lambda>d old_key. dict_delete old_key d) store
               (take 10 (map fst (sort_key (\<lambda>e. cached_at (snd e)) store)))
        else store)"

subsection \<open>Executing one step\<close>

text \<open>
  What a step execution reads and changes: the caller's security context, the engine's
  cache, the result under construction, and the world outside (the subprocesses started
  and the files written), which only the executors of shell and template steps touch.
\<close>

datatype action = Subprocess string | FileWrite string string

record exec_state =
  security_context :: SecurityContext
  step_cache :: "CacheEntry dict"
  world :: "action list"
  step_result :: SecureStepResult

text \<open>An executor returns the state it leaves, and the exception it raised, if any.\<close>

type_synonym executor = "WorkflowStep \<Rightarrow> json dict \<Rightarrow> exec_state \<Rightarrow> error option \<times> exec_state"

text \<open>
  \<^verbatim>\<open>_execute_shell_step\<close> and \<^verbatim>\<open>_execute_template_step\<close> start with their permission gate.
  What follows the gate (validation, rendering, the subprocess or the file write, the log
  entry) is the parameter \<open>body\<close>: any function of the step, the context and the state.
\<close>

definition execute_shell_step :: "executor \<Rightarrow> executor" where
  "execute_shell_step body step ctx st =
     (if \<not> has_permission (security_context st) ''shell.execute''
      then (Some (SecurityError ''User lacks permission to execute shell commands''), st)
      else body step ctx st)"

definition execute_template_step :: "executor \<Rightarrow> executor" where
  "execute_template_step body step ctx st =
     (if \<not> has_permission (security_context st) ''file.write''
      then (Some (SecurityError ''User lacks permission to write files''), st)
      else body step ctx st)"

text \<open>\<^verbatim>\<open>step.message or f"Assertion failed: {condition}"\<close>.\<close>

definition assert_message :: "WorkflowStep \<Rightarrow> string \<Rightarrow> string" where
  "assert_message step cond =
     (if truthy_str (message step) then the (message step) else ''Assertion failed: '' @ cond)"

text \<open>
  \<^verbatim>\<open>_execute_assert_step\<close>. Every exception is caught inside, so none is returned. In the
  \<^verbatim>\<open>continue\<close> branch the status is set to \<^verbatim>\<open>SKIPPED\<close> and then \<^verbatim>\<open>set_completed\<close> is
  called, as in the source.
\<close>

definition execute_assert_step :: "library \<Rightarrow> string \<Rightarrow> executor" where
  "execute_assert_step lib strictness_level step ctx st =
     (let cond = (if truthy_str (condition step) then the (condition step) else '''');
          r = step_result st;
          r' =
            (case validate_string_input strictness_level cond ''assertion condition'' of
               Inl e \<Rightarrow> set_failed lib (''Assertion evaluation error: '' @ error_message e) r
             | Inr c \<Rightarrow>
                 (case evaluate_condition lib cond ctx of
                    Inl e \<Rightarrow> set_failed lib (''Assertion evaluation error: '' @ error_message e) r
                  | Inr assertion_passed \<Rightarrow>
                      if assertion_passed
                      then set_completed lib (Some [(''assertion_result'', JBool True)]) r
                      else if on_failure step = Some ''fail''
                      then set_failed lib (assert_message step cond) r
                      else if on_failure step = Some ''warn''
                      then set_completed lib
                             (Some [(''assertion_result'', JBool False),
                                    (''warning'', JStr (assert_message step cond))]) r
                      else set_completed lib (Some [(''assertion_result'', JBool False)])
                             (r\<lparr>status := SKIPPED\<rparr>)))
      in (None, st\<lparr>step_result := r',
                    security_context :=
                      log_security_event lib (''Assertion executed: '' @ step_id step)
                        (security_context st)\<rparr>))"

text \<open>\<^verbatim>\<open>step.cache.get('enabled', True)\<close> as a truth value.\<close>

definition cache_enabled :: "WorkflowStep \<Rightarrow> bool" where
  "cache_enabled step = py_truthy (dict_get (cache step) ''enabled'' (JBool True))"

text \<open>
  \<^verbatim>\<open>_execute_step_securely\<close>, with the readings of the clock at the cache lookup and at
  the cache store as arguments. A cache hit returns at once; otherwise the step's type
  selects the executor, a completed result is stored, and an exception makes the result
  failed and is logged.
\<close>

definition dispatch_step :: "library \<Rightarrow> string \<Rightarrow> executor \<Rightarrow> executor \<Rightarrow> executor" where
  "dispatch_step lib strictness_level shell_body template_body step ctx st =
     (if step_type step = ''shell'' then execute_shell_step shell_body step ctx st
      else if step_type step = ''assert'' then execute_assert_step lib strictness_level step ctx st
      else if step_type step = ''template'' then execute_template_step template_body step ctx st
      else (Some (SecurityError (''Unsupported step type: '' @ step_type step)), st))"

definition run_step :: "library \<Rightarrow> string \<Rightarrow> executor \<Rightarrow> executor \<Rightarrow> real \<Rightarrow> executor" where
  "run_step lib strictness_level shell_body template_body now_store step ctx st =
     (case dispatch_step lib strictness_level shell_body template_body step ctx st of
        (Some e, st') \<Rightarrow>
          (None, st'\<lparr>step_result := set_failed lib (error_message e) (step_result st'),
                     security_context :=
                       log_security_event lib
                         (''Step '' @ step_id step @ '' failed: '' @ error_message e)
                         (security_context st')\<rparr>)
      | (None, st') \<Rightarrow>
          if status (step_result st') = COMPLETED \<and> cache_enabled step
          then (None, st'\<lparr>step_cache :=
                   cache_result lib now_store
                     (case cache_key (step_result st') of
                        Some k \<Rightarrow> if k \<noteq> [] then k else generate_cache_key_secure lib step ctx
                      | None \<Rightarrow> generate_cache_key_secure lib step ctx)
                     (step_result st') (step_cache st')\<rparr>)
          else (None, st'))"

definition execute_step_securely ::
  "library \<Rightarrow> string \<Rightarrow> executor \<Rightarrow> executor \<Rightarrow> real \<Rightarrow> real \<Rightarrow>
     WorkflowStep \<Rightarrow> json dict \<Rightarrow> exec_state \<Rightarrow> exec_state" where
  "execute_step_securely lib strictness_level shell_body template_body now_lookup now_store
       step ctx st =
     (let st0 = st\<lparr>step_result := new_result (step_id step) RUNNING\<rparr>
      in if cache_enabled step then
           (case get_cached_result now_lookup (generate_cache_key_secure lib step ctx)
                   (step_cache st0) of
              (Some cached_result, store) \<Rightarrow>
                st0\<lparr>step_cache := store,
                    step_result :=
                      set_completed lib None
                        ((step_result st0)
                           \<lparr>cached := True,
                            cache_key := Some (generate_cache_key_secure lib step ctx),
                            outputs := entry_outputs cached_result\<rparr>)\<rparr>
            | (None, store) \<Rightarrow>
                snd (run_step lib strictness_level shell_body template_body now_store step ctx
                       (st0\<lparr>step_cache := store\<rparr>)))
         else snd (run_step lib strictness_level shell_body template_body now_store step ctx st0))"

subsection \<open>The start of \<^verbatim>\<open>execute_workflow_securely\<close>\<close>

text \<open>\<^verbatim>\<open>_validate_workflow_inputs\<close>: a required input that is missing and a string input
  that the validator rejects raise; then the validation is logged.\<close>

fun check_inputs :: "string \<Rightarrow> WorkflowInput dict \<Rightarrow> json dict \<Rightarrow> error option" where
  "check_inputs strictness_level [] ins = None"
| "check_inputs strictness_level (e # cfgs) ins =
     (if required (snd e) \<and> map_of ins (fst e) = None
      then Some (SecurityError (''Required input missing: '' @ fst e))
      else (case map_of ins (fst e) of
              Some (JStr v) \<Rightarrow>
                (case validate_string_input strictness_level v (''input '' @ fst e) of
                   Inl err \<Rightarrow> Some err
                 | Inr u \<Rightarrow> check_inputs strictness_level cfgs ins)
            | _ \<Rightarrow> check_inputs strictness_level cfgs ins))"

definition validate_workflow_inputs ::
  "library \<Rightarrow> string \<Rightarrow> WorkflowDefinition \<Rightarrow> json dict \<Rightarrow> SecurityContext \<Rightarrow>
     error + SecurityContext" where
  "validate_workflow_inputs lib strictness_level wfd ins sc =
     (case check_inputs strictness_level (wf_inputs wfd) ins of
        Some e \<Rightarrow> Inl e
      | None \<Rightarrow>
          Inr (log_security_event lib
                 (''Workflow inputs validated: '' @ show_nat (length ins) @ '' inputs'') sc))"

text \<open>
  \<^verbatim>\<open>execute_workflow_securely\<close> up to its permission gate; \<open>run\<close> is everything after the
  gate (the allocation of resources, the execution of the steps, the release).
\<close>

definition execute_workflow_securely ::
  "library \<Rightarrow> string \<Rightarrow> (WorkflowDefinition \<Rightarrow> json dict \<Rightarrow> SecurityContext \<Rightarrow> 'r) \<Rightarrow>
     WorkflowDefinition \<Rightarrow> json dict \<Rightarrow> SecurityContext \<Rightarrow> error + 'r" where
  "execute_workflow_securely lib strictness_level run wfd ins sc =
     (case validate_workflow_inputs lib strictness_level wfd ins sc of
        Inl e \<Rightarrow> Inl e
      | Inr sc' \<Rightarrow>
          if \<not> has_permission sc' ''workflow.execute''
          then Inl (SecurityError ''User lacks permission to execute workflows'')
          else Inr (run wfd ins sc'))"

subsection \<open>A library instance for closed examples\<close>

text \<open>
  The theorems about the engine hold for every value of the library record. To evaluate
  the code on a concrete input the record needs a value: here the hash and the redactions
  are the identity, a string is encoded by putting it between double quotes (right for a
  string with nothing to escape), \<^verbatim>\<open>str\<close> of a value is its JSON text, and \<^verbatim>\<open>simpleeval\<close> is
  absent. \<open>rejecting_library\<close> is the same with a \<^verbatim>\<open>simpleeval\<close> that raises on every expression
  it is given, as the real one does on an expression it cannot parse.
\<close>

definition plain_library :: library where
  "plain_library =
     \<lparr>sha256_hexdigest = (\<lambda>s. s), simple_eval = None,
      py_str = json_dumps (\<lambda>s. [CHR 0x22] @ s @ [CHR 0x22]),
      json_string = (\<lambda>s. [CHR 0x22] @ s @ [CHR 0x22]),
      redact_output = (\<lambda>s. s), redact_error = (\<lambda>s. s),
      timestamp = ''2024-01-01T00:00:00+00:00'',
      MAX_LOG_LENGTH = 1000, MAX_CACHE_ENTRIES = 1000\<rparr>"



section \<open>Vocabulary of the claims about the parser\<close>

text \<open>
  \<open>pos xs x\<close> is the index of the first \<open>x\<close> in \<open>xs\<close> (the length of \<open>xs\<close> when there is
  none); \<open>dep_edges\<close> is the dependency graph the steps declare, an edge from a step to each
  id in its \<^verbatim>\<open>depends_on\<close>; \<open>graph_edges\<close> is the same for the dict the parser builds.
  \<open>kahn_order\<close> names the list \<^verbatim>\<open>_compute_execution_order\<close> computes, \<open>graph_ok\<close> what
  \<^verbatim>\<open>_build_dependency_graph\<close> guarantees, and \<open>kahn_inv\<close> is the loop invariant.
\<close>

definition pos :: "string list \<Rightarrow> string \<Rightarrow> nat" where
  "pos xs x = length (takeWhile (\<lambda>y. y \<noteq> x) xs)"

definition graph_edges :: "(string list) dict \<Rightarrow> (string \<times> string) set" where
  "graph_edges g = set (concat (map (\<lambda>e. map (\<lambda>d. (fst e, d)) (snd e)) g))"

definition graph_ok :: "(string list) dict \<Rightarrow> bool" where
  "graph_ok g = (distinct (map fst g) \<and>
     (\<forall>e \<in> set g. distinct (snd e) \<and> set (snd e) \<subseteq> fst ` set g))"

definition kahn_inv :: "(string list) dict \<Rightarrow> int dict \<Rightarrow> string list \<Rightarrow> string list \<Rightarrow> bool" where
  "kahn_inv g deg queue order =
     (distinct (order @ queue) \<and> set (order @ queue) \<subseteq> fst ` set g \<and>
      (\<forall>e \<in> set g. map_of deg (fst e) = Some (int (card (set (snd e) - set order)))) \<and>
      (\<forall>e \<in> set g. (fst e \<in> set (order @ queue)) = (set (snd e) \<subseteq> set order)) \<and>
      (\<forall>e \<in> set g. fst e \<in> set order \<longrightarrow>
          (\<forall>d \<in> set (snd e). d \<in> set order \<and> pos order d < pos order (fst e))))"

definition dep_edges :: "WorkflowStep list \<Rightarrow> (string \<times> string) set" where
  "dep_edges ss = set (concat (map (\<lambda>s. map (\<lambda>d. (step_id s, d)) (depends_on s)) ss))"

definition kahn_order :: "(string list) dict \<Rightarrow> string list" where
  "kahn_order g =
     (let in_degree = calculate_in_degrees g (map (\<lambda>e. (fst e, 0)) g)
      in kahn_loop g in_degree (map fst (filter (\<lambda>e. snd e = 0) in_degree)) [])"

section \<open>Kahn's algorithm: invariant, completeness, soundness\<close>

lemma map_fst_dict_modify: "map fst (dict_modify k f d) = map fst d"
  by (induction d) auto

lemma map_fst_dict_set_present: "k \<in> fst ` set d \<Longrightarrow> map fst (dict_set k v d) = map fst d"
  by (induction d) force+

lemma map_fst_dict_set_absent: "k \<notin> fst ` set d \<Longrightarrow> dict_set k v d = d @ [(k, v)]"
  by (induction d) auto

lemma map_of_dict_set: "map_of (dict_set k v d) = (map_of d)(k \<mapsto> v)"
  by (induction d) auto

lemma dict_set_same: "k \<in> fst ` set d \<Longrightarrow> dict_set k (dict_get d k dflt) d = d"
  by (induction d) (force simp: dict_get_def)+

lemma touch_dependencies_id: "set ds \<subseteq> fst ` set deg \<Longrightarrow> touch_dependencies ds deg = deg"
  by (induction ds arbitrary: deg) (auto simp: dict_set_same)

lemma map_fst_count_dependencies: "map fst (count_dependencies sid ds deg) = map fst deg"
  by (induction ds arbitrary: deg) (auto simp: map_fst_dict_modify)

lemma map_of_count_dependencies:
  "map_of (count_dependencies sid ds deg) =
     (map_of deg)(sid := map_option (\<lambda>n. n + int (length ds)) (map_of deg sid))"
proof (induction ds arbitrary: deg)
  case Nil
  show ?case by (auto simp: fun_eq_iff option.map_ident)
next
  case (Cons d ds)
  show ?case
    by (auto simp: Cons.IH map_of_dict_modify fun_eq_iff option.map_comp comp_def algebra_simps)
qed

lemma calculate_in_degrees_spec:
  assumes "distinct (map fst g)"
    and "\<forall>e \<in> set g. set (snd e) \<subseteq> fst ` set deg"
  shows "map fst (calculate_in_degrees g deg) = map fst deg \<and>
         (\<forall>k. map_of (calculate_in_degrees g deg) k =
            (case map_of g k of
               Some ds \<Rightarrow> map_option (\<lambda>n. n + int (length ds)) (map_of deg k)
             | None \<Rightarrow> map_of deg k))"
  using assms
proof (induction g arbitrary: deg)
  case Nil
  then show ?case by simp
next
  case (Cons e g)
  obtain sid ds where e: "e = (sid, ds)" by (cases e)
  let ?d = "count_dependencies sid ds (touch_dependencies ds deg)"
  have t: "touch_dependencies ds deg = deg"
    using Cons.prems(2) e by (intro touch_dependencies_id) auto
  have keys: "map fst ?d = map fst deg"
    by (simp add: t map_fst_count_dependencies)
  then have keyset: "fst ` set ?d = fst ` set deg"
    by (metis list.set_map)
  have IH: "map fst (calculate_in_degrees g ?d) = map fst ?d \<and>
         (\<forall>k. map_of (calculate_in_degrees g ?d) k =
            (case map_of g k of
               Some ds \<Rightarrow> map_option (\<lambda>n. n + int (length ds)) (map_of ?d k)
             | None \<Rightarrow> map_of ?d k))"
    using Cons.prems by (intro Cons.IH) (auto simp: keyset)
  have notin: "map_of g sid = None"
    using Cons.prems(1) e by (auto simp: map_of_eq_None_iff)
  show ?case
    using IH notin
    by (auto simp: e t map_of_count_dependencies map_fst_count_dependencies split: option.splits)
qed

lemma remove_edges_spec:
  assumes "distinct (map fst g)" and "remove_edges g cur (deg, q) = (deg', q')"
  shows "map fst deg' = map fst deg \<and>
     (\<forall>k. map_of deg' k =
        (if (\<exists>ds. (k, ds) \<in> set g \<and> cur \<in> set ds)
         then map_option (\<lambda>n. n - 1) (map_of deg k) else map_of deg k)) \<and>
     q' = q @ map fst (filter (\<lambda>e. cur \<in> set (snd e) \<and> map_of deg (fst e) = Some 1) g)"
  using assms
proof (induction g arbitrary: deg q)
  case Nil
  then show ?case by auto
next
  case (Cons e g)
  obtain sid ds where e: "e = (sid, ds)" by (cases e)
  have dg: "distinct (map fst g)" and notin: "sid \<notin> fst ` set g"
    using Cons.prems(1) e by auto
  show ?case
  proof (cases "cur \<in> set ds")
    case False
    then have r: "remove_edges g cur (deg, q) = (deg', q')"
      using Cons.prems(2) e by simp
    from Cons.IH[OF dg r] False notin show ?thesis
      by (auto simp: e image_iff)
  next
    case True
    let ?d = "dict_modify sid (\<lambda>n. n - 1) deg"
    let ?q = "if map_of ?d sid = Some 0 then q @ [sid] else q"
    have r: "remove_edges g cur (?d, ?q) = (deg', q')"
      using Cons.prems(2) True e by (simp add: Let_def)
    note IH = Cons.IH[OF dg r]
    have IH2: "map_of deg' k =
           (if \<exists>ds. (k, ds) \<in> set g \<and> cur \<in> set ds
            then map_option (\<lambda>n. n - 1) (map_of ?d k) else map_of ?d k)" for k
      using IH by blast
    have same: "\<And>k. k \<noteq> sid \<Longrightarrow> map_of ?d k = map_of deg k"
      by (simp add: map_of_dict_modify)
    have zero: "(map_of ?d sid = Some 0) = (map_of deg sid = Some 1)"
      by (auto simp: map_of_dict_modify)
    have filt: "filter (\<lambda>e. cur \<in> set (snd e) \<and> map_of ?d (fst e) = Some 1) g
          = filter (\<lambda>e. cur \<in> set (snd e) \<and> map_of deg (fst e) = Some 1) g"
      using notin by (intro filter_cong) (auto simp: same image_iff)
    have c1: "map fst deg' = map fst deg"
      using IH by (simp add: map_fst_dict_modify)
    have c3: "q' = q @ map fst (filter (\<lambda>e. cur \<in> set (snd e) \<and> map_of deg (fst e) = Some 1) (e # g))"
      using IH True by (simp add: filt e zero)
    have c2: "map_of deg' k =
        (if (\<exists>ds. (k, ds) \<in> set (e # g) \<and> cur \<in> set ds)
         then map_option (\<lambda>n. n - 1) (map_of deg k) else map_of deg k)" for k
    proof (cases "k = sid")
      case True
      have "\<not> (\<exists>ds. (k, ds) \<in> set g \<and> cur \<in> set ds)"
        using notin True by (auto simp: image_iff)
      then have "map_of deg' k = map_of ?d k" using IH2[of k] by auto
      then show ?thesis using True \<open>cur \<in> set ds\<close> e by (auto simp: map_of_dict_modify)
    next
      case False
      then show ?thesis using IH2[of k] e by (auto simp: same)
    qed
    from c1 c2 c3 show ?thesis by blast
  qed
qed

lemma pos_append_in: "x \<in> set xs \<Longrightarrow> pos (xs @ ys) x = pos xs x"
  by (simp add: pos_def takeWhile_append1)

lemma pos_append_new: "x \<notin> set xs \<Longrightarrow> pos (xs @ [x]) x = length xs"
  by (induction xs) (auto simp: pos_def)

lemma pos_less: "x \<in> set xs \<Longrightarrow> pos xs x < length xs"
  by (induction xs) (auto simp: pos_def)

lemma kahn_inv_step:
  assumes ok: "graph_ok g"
    and inv: "kahn_inv g deg (cur # queue) order"
    and r: "remove_edges g cur (deg, queue) = (deg', queue')"
  shows "kahn_inv g deg' queue' (order @ [cur])"
proof -
  have dk: "distinct (map fst g)" using ok by (simp add: graph_ok_def)
  have uniq: "\<And>k ds e. e \<in> set g \<Longrightarrow> (fst e, ds) \<in> set g \<Longrightarrow> ds = snd e"
    using dk by (metis eq_key_imp_eq_value prod.collapse)
  let ?new = "map fst (filter (\<lambda>e. cur \<in> set (snd e) \<and> map_of deg (fst e) = Some 1) g)"
  from remove_edges_spec[OF dk r]
  have q': "queue' = queue @ ?new"
    and deg': "\<And>k. map_of deg' k =
        (if (\<exists>ds. (k, ds) \<in> set g \<and> cur \<in> set ds)
         then map_option (\<lambda>n. n - 1) (map_of deg k) else map_of deg k)"
    by blast+
  have d0: "distinct (order @ cur # queue)" and s0: "set (order @ cur # queue) \<subseteq> fst ` set g"
    and i1: "\<And>e. e \<in> set g \<Longrightarrow> map_of deg (fst e) = Some (int (card (set (snd e) - set order)))"
    and i2: "\<And>e. e \<in> set g \<Longrightarrow> (fst e \<in> set (order @ cur # queue)) = (set (snd e) \<subseteq> set order)"
    and i3: "\<And>e d. e \<in> set g \<Longrightarrow> fst e \<in> set order \<Longrightarrow> d \<in> set (snd e) \<Longrightarrow>
               d \<in> set order \<and> pos order d < pos order (fst e)"
    using inv by (auto simp: kahn_inv_def)
  have cur_new: "cur \<notin> set order" "cur \<notin> set queue"
    using d0 by auto
  have ex_iff: "(\<exists>ds. (fst e, ds) \<in> set g \<and> cur \<in> set ds) = (cur \<in> set (snd e))" if "e \<in> set g" for e
    using that uniq[OF that] by (metis prod.collapse)
  have card1: "int (card (set (snd e) - set (order @ [cur]))) = int (card (set (snd e) - set order)) - 1"
    if "cur \<in> set (snd e)" for e
  proof -
    have "set (snd e) - set (order @ [cur]) = (set (snd e) - set order) - {cur}" by auto
    moreover have "cur \<in> set (snd e) - set order" using that cur_new by simp
    ultimately show ?thesis
      by (metis List.finite_set card_Diff_singleton card_gt_0_iff empty_iff finite_Diff int_ops(6) of_nat_1 not_less_eq_eq One_nat_def Suc_leI of_nat_diff)
  qed
  have in_new: "(fst e \<in> set ?new) = (cur \<in> set (snd e) \<and> set (snd e) \<subseteq> set (order @ [cur]))"
    if e: "e \<in> set g" for e
  proof -
    have "(fst e \<in> set ?new) = (cur \<in> set (snd e) \<and> map_of deg (fst e) = Some 1)"
    proof
      assume "fst e \<in> set ?new"
      then obtain e' where e': "e' \<in> set g" "fst e' = fst e" "cur \<in> set (snd e')" "map_of deg (fst e') = Some 1"
        by auto
      then have "e' = e" using dk e by (metis eq_key_imp_eq_value prod.collapse)
      with e' show "cur \<in> set (snd e) \<and> map_of deg (fst e) = Some 1" by simp
    next
      assume "cur \<in> set (snd e) \<and> map_of deg (fst e) = Some 1"
      then show "fst e \<in> set ?new" using e by force
    qed
    also have "\<dots> = (cur \<in> set (snd e) \<and> card (set (snd e) - set order) = 1)"
      using i1[OF e] by auto
    also have "\<dots> = (cur \<in> set (snd e) \<and> set (snd e) \<subseteq> set (order @ [cur]))"
    proof (cases "cur \<in> set (snd e)")
      case False then show ?thesis by simp
    next
      case True
      then have c: "cur \<in> set (snd e) - set order" using cur_new by simp
      have "(card (set (snd e) - set order) = 1) = (set (snd e) - set order = {cur})"
      proof
        assume "card (set (snd e) - set order) = 1"
        then obtain x where "set (snd e) - set order = {x}" by (auto simp: card_1_singleton_iff)
        with c show "set (snd e) - set order = {cur}" by auto
      qed simp
      also have "\<dots> = (set (snd e) \<subseteq> set (order @ [cur]))" using c by auto
      finally show ?thesis using True by simp
    qed
    finally show ?thesis .
  qed
  have new_keys: "set ?new \<subseteq> fst ` set g" by auto
  have new_fresh: "k \<notin> set (order @ cur # queue)" if "k \<in> set ?new" for k
  proof -
    from that obtain e where e: "e \<in> set g" "fst e = k" "cur \<in> set (snd e)" by auto
    then have "\<not> set (snd e) \<subseteq> set order" using cur_new by auto
    then show ?thesis using i2[OF e(1)] e(2) by simp
  qed
  have dnew: "distinct ?new"
    using dk by (simp add: distinct_map_filter)
  have c1: "distinct ((order @ [cur]) @ queue')"
    using d0 dnew new_fresh unfolding q' by auto
  have c2: "set ((order @ [cur]) @ queue') \<subseteq> fst ` set g"
    using s0 new_keys unfolding q' by auto
  have c3: "map_of deg' (fst e) = Some (int (card (set (snd e) - set (order @ [cur]))))" if e: "e \<in> set g" for e
  proof (cases "cur \<in> set (snd e)")
    case True
    then show ?thesis using deg'[of "fst e"] ex_iff[OF e] i1[OF e] card1[OF True] by simp
  next
    case False
    then have "set (snd e) - set (order @ [cur]) = set (snd e) - set order" by auto
    then show ?thesis using deg'[of "fst e"] ex_iff[OF e] i1[OF e] False by simp
  qed
  have c4: "(fst e \<in> set ((order @ [cur]) @ queue')) = (set (snd e) \<subseteq> set (order @ [cur]))" if e: "e \<in> set g" for e
  proof -
    have "(fst e \<in> set ((order @ [cur]) @ queue')) = (fst e \<in> set (order @ cur # queue) \<or> fst e \<in> set ?new)"
      unfolding q' by auto
    also have "\<dots> = (set (snd e) \<subseteq> set order \<or> (cur \<in> set (snd e) \<and> set (snd e) \<subseteq> set (order @ [cur])))"
      using i2[OF e] in_new[OF e] by simp
    also have "\<dots> = (set (snd e) \<subseteq> set (order @ [cur]))" by auto
    finally show ?thesis .
  qed
  have c5: "d \<in> set (order @ [cur]) \<and> pos (order @ [cur]) d < pos (order @ [cur]) (fst e)"
    if e: "e \<in> set g" and k: "fst e \<in> set (order @ [cur])" and d: "d \<in> set (snd e)" for e d
  proof (cases "fst e \<in> set order")
    case True
    from i3[OF e True d] show ?thesis by (simp add: pos_append_in True)
  next
    case False
    then have fe: "fst e = cur" using k by simp
    then have "set (snd e) \<subseteq> set order" using i2[OF e] by simp
    then have "d \<in> set order" using d by auto
    then show ?thesis using fe cur_new by (simp add: pos_append_in pos_append_new pos_less)
  qed
  show ?thesis
    unfolding kahn_inv_def using c1 c2 c3 c4 c5 by blast
qed

lemma kahn_loop_inv:
  "graph_ok g \<Longrightarrow> kahn_inv g deg queue order \<Longrightarrow>
     \<exists>deg'. kahn_inv g deg' [] (kahn_loop g deg queue order)"
proof (induction g deg queue order rule: kahn_loop.induct)
  case (1 g deg order)
  then show ?case by auto
next
  case (2 g deg current queue order)
  obtain deg' queue' where r: "remove_edges g current (deg, queue) = (deg', queue')"
    by (cases "remove_edges g current (deg, queue)")
  have "kahn_inv g deg' queue' (order @ [current])"
    by (rule kahn_inv_step[OF "2.prems"(1) "2.prems"(2) r])
  from "2.IH"[OF r[symmetric] "2.prems"(1) this] show ?case
    by (simp add: r)
qed

lemma graph_edges_iff: "((k, d) \<in> graph_edges g) = (\<exists>e \<in> set g. fst e = k \<and> d \<in> set (snd e))"
  by (auto simp: graph_edges_def)

lemma kahn_inv_init:
  assumes ok: "graph_ok g"
  defines "deg0 \<equiv> calculate_in_degrees g (map (\<lambda>e. (fst e, 0)) g)"
  shows "kahn_inv g deg0 (map fst (filter (\<lambda>e. snd e = 0) deg0)) []"
proof -
  have dk: "distinct (map fst g)" using ok by (simp add: graph_ok_def)
  have closed: "\<forall>e \<in> set g. set (snd e) \<subseteq> fst ` set (map (\<lambda>e. (fst e, 0::int)) g)"
    using ok by (force simp: graph_ok_def)
  from calculate_in_degrees_spec[OF dk closed]
  have keys: "map fst deg0 = map fst g"
    and val: "\<And>k. map_of deg0 k =
            (case map_of g k of
               Some ds \<Rightarrow> map_option (\<lambda>n. n + int (length ds)) (map_of (map (\<lambda>e. (fst e, 0)) g) k)
             | None \<Rightarrow> map_of (map (\<lambda>e. (fst e, 0)) g) k)"
    unfolding deg0_def by (simp_all add: comp_def)
  have init: "map_of (map (\<lambda>e. (fst e, 0::int)) g) (fst e) = Some 0" if "e \<in> set g" for e
    using that by (induction g) auto
  have v: "map_of deg0 (fst e) = Some (int (length (snd e)))" if e: "e \<in> set g" for e
  proof -
    have "map_of g (fst e) = Some (snd e)" using dk e by simp
    then show ?thesis using val[of "fst e"] init[OF e] by simp
  qed
  have card: "card (set (snd e)) = length (snd e)" if "e \<in> set g" for e
    using ok that by (simp add: graph_ok_def distinct_card)
  have ddeg: "distinct (map fst deg0)" using keys dk by simp
  have q_iff: "(fst e \<in> set (map fst (filter (\<lambda>e. snd e = 0) deg0))) = (snd e = [])" if e: "e \<in> set g" for e
  proof -
    have "(fst e \<in> set (map fst (filter (\<lambda>e. snd e = 0) deg0))) = ((fst e, 0) \<in> set deg0)"
      by force
    also have "\<dots> = (map_of deg0 (fst e) = Some 0)"
      using ddeg by simp
    also have "\<dots> = (snd e = [])" using v[OF e] by simp
    finally show ?thesis .
  qed
  have "distinct (map fst (filter (\<lambda>e. snd e = 0) deg0))"
    using ddeg by (simp add: distinct_map_filter)
  moreover have "set (map fst (filter (\<lambda>e. snd e = 0) deg0)) \<subseteq> fst ` set g"
  proof -
    have "set (map fst (filter (\<lambda>e. snd e = 0) deg0)) \<subseteq> set (map fst deg0)" by auto
    then show ?thesis unfolding keys by simp
  qed
  ultimately show ?thesis
    unfolding kahn_inv_def using v card q_iff by auto
qed

lemma kahn_complete:
  assumes ok: "graph_ok g" and inv: "kahn_inv g deg [] res" and ac: "acyclic (graph_edges g)"
  shows "set res = fst ` set g"
proof (rule ccontr)
  assume ne: "set res \<noteq> fst ` set g"
  have sub: "set res \<subseteq> fst ` set g" using inv by (simp add: kahn_inv_def)
  have i2: "\<And>e. e \<in> set g \<Longrightarrow> (fst e \<in> set res) = (set (snd e) \<subseteq> set res)"
    using inv by (simp add: kahn_inv_def)
  let ?Q = "fst ` set g - set res"
  from ne sub obtain x where x: "x \<in> ?Q" by auto
  have "finite (graph_edges g)" by (simp add: graph_edges_def)
  then have "wf ((graph_edges g)\<inverse>)"
    using ac by (simp add: finite_acyclic_wf)
  then obtain z where z: "z \<in> ?Q" and minz: "\<And>y. (y, z) \<in> (graph_edges g)\<inverse> \<Longrightarrow> y \<notin> ?Q"
    using x by (metis wfE_min)
  from z obtain e where e: "e \<in> set g" "fst e = z" by auto
  have "set (snd e) \<subseteq> set res"
  proof
    fix d assume d: "d \<in> set (snd e)"
    then have "(z, d) \<in> graph_edges g" using e by (auto simp: graph_edges_iff)
    then have "d \<notin> ?Q" using minz[of d] by simp
    moreover have "d \<in> fst ` set g" using ok e(1) d by (auto simp: graph_ok_def)
    ultimately show "d \<in> set res" by simp
  qed
  then have "z \<in> set res" using i2[OF e(1)] e(2) by simp
  then show False using z by simp
qed

lemma kahn_sound:
  assumes inv: "kahn_inv g deg [] res" and all: "fst ` set g \<subseteq> set res"
  shows "acyclic (graph_edges g)"
proof -
  have i3: "\<And>e d. e \<in> set g \<Longrightarrow> fst e \<in> set res \<Longrightarrow> d \<in> set (snd e) \<Longrightarrow> pos res d < pos res (fst e)"
    using inv by (simp add: kahn_inv_def)
  have "(graph_edges g)\<inverse> \<subseteq> inv_image less_than (pos res)"
  proof
    fix p assume "p \<in> (graph_edges g)\<inverse>"
    then obtain d k where p: "p = (d, k)" and "(k, d) \<in> graph_edges g" by auto
    then obtain e where e: "e \<in> set g" "fst e = k" "d \<in> set (snd e)" by (auto simp: graph_edges_iff)
    then have "fst e \<in> set res" using all by auto
    from i3[OF e(1) this e(3)] show "p \<in> inv_image less_than (pos res)"
      using p e(2) by simp
  qed
  moreover have "wf (inv_image less_than (pos res))" by simp
  ultimately have "wf ((graph_edges g)\<inverse>)" by (rule wf_subset[rotated])
  then have "acyclic ((graph_edges g)\<inverse>)" by (rule wf_acyclic)
  then show ?thesis by simp
qed

lemma dep_edges_iff: "((k, d) \<in> dep_edges ss) = (\<exists>s \<in> set ss. step_id s = k \<and> d \<in> set (depends_on s))"
  by (auto simp: dep_edges_def)

lemma keys_dict_set: "fst ` set (dict_set k v d) = insert k (fst ` set d)"
  by (induction d) (force split: if_splits)+

lemma distinct_dict_set: "distinct (map fst d) \<Longrightarrow> distinct (map fst (dict_set k v d))"
  by (induction d) (auto simp: keys_dict_set)

lemma set_dict_set_subset: "set (dict_set k v d) \<subseteq> insert (k, v) (set d)"
  by (induction d) (auto split: if_splits)

lemma dict_set_mem: "(k, v) \<in> set (dict_set k v d)"
  by (induction d) auto

lemma dict_set_keep: "e \<in> set d \<Longrightarrow> fst e \<noteq> k \<Longrightarrow> e \<in> set (dict_set k v d)"
  by (induction d) auto

lemma add_dependencies_Inr:
  "add_dependencies ids sid ds acc = Inr r \<Longrightarrow>
     set ds \<subseteq> ids \<and> set r = set acc \<union> set ds \<and> (distinct acc \<longrightarrow> distinct r)"
  by (induction ds arbitrary: acc) (auto simp: set_add_def split: if_splits)

lemma add_dependencies_total:
  "set ds \<subseteq> ids \<Longrightarrow> \<exists>r. add_dependencies ids sid ds acc = Inr r"
  by (induction ds arbitrary: acc) auto

lemma add_dependencies_Inl:
  "add_dependencies ids sid ds acc = Inl e \<Longrightarrow> \<exists>m. e = WorkflowValidationError m"
  by (induction ds arbitrary: acc) (auto split: if_splits)

lemma build_graph_loop_Inl:
  "build_graph_loop ids ss g0 = Inl e \<Longrightarrow> \<exists>m. e = WorkflowValidationError m"
  by (induction ss arbitrary: g0) (auto split: sum.splits dest: add_dependencies_Inl)

lemma build_graph_loop_total:
  "\<forall>s \<in> set ss. set (depends_on s) \<subseteq> ids \<Longrightarrow> \<exists>g. build_graph_loop ids ss g0 = Inr g"
proof (induction ss arbitrary: g0)
  case Nil
  then show ?case by simp
next
  case (Cons s ss)
  then obtain r where "add_dependencies ids (step_id s) (depends_on s) [] = Inr r"
    using add_dependencies_total[of "depends_on s" ids "step_id s" "[]"] by auto
  then show ?case using Cons by simp
qed

lemma build_graph_loop_known:
  "build_graph_loop ids ss g0 = Inr g \<Longrightarrow> \<forall>s \<in> set ss. set (depends_on s) \<subseteq> ids"
  by (induction ss arbitrary: g0) (auto split: sum.splits dest: add_dependencies_Inr)

lemma build_graph_loop_keys:
  "build_graph_loop ids ss g0 = Inr g \<Longrightarrow>
     fst ` set g = fst ` set g0 \<union> step_id ` set ss \<and>
     (distinct (map fst g0) \<longrightarrow> distinct (map fst g))"
  by (induction ss arbitrary: g0)
    (auto split: sum.splits simp: keys_dict_set distinct_dict_set)

lemma build_graph_loop_entries:
  "build_graph_loop ids ss g0 = Inr g \<Longrightarrow> e \<in> set g \<Longrightarrow>
     e \<in> set g0 \<or> (\<exists>s \<in> set ss. fst e = step_id s \<and> set (snd e) = set (depends_on s) \<and> distinct (snd e))"
proof (induction ss arbitrary: g0)
  case Nil
  then show ?case by simp
next
  case (Cons s ss)
  from Cons.prems(1) obtain r where r: "add_dependencies ids (step_id s) (depends_on s) [] = Inr r"
    and l: "build_graph_loop ids ss (dict_set (step_id s) r g0) = Inr g"
    by (auto split: sum.splits)
  from Cons.IH[OF l Cons.prems(2)] show ?case
  proof
    assume "e \<in> set (dict_set (step_id s) r g0)"
    then have "e = (step_id s, r) \<or> e \<in> set g0" using set_dict_set_subset by fastforce
    then show ?thesis using add_dependencies_Inr[OF r] by auto
  qed auto
qed

lemma build_graph_loop_keep:
  "build_graph_loop ids ss g0 = Inr g \<Longrightarrow> e \<in> set g0 \<Longrightarrow> fst e \<notin> step_id ` set ss \<Longrightarrow> e \<in> set g"
  by (induction ss arbitrary: g0) (auto split: sum.splits simp: dict_set_keep)

lemma build_graph_loop_has:
  "build_graph_loop ids ss g0 = Inr g \<Longrightarrow> distinct (map step_id ss) \<Longrightarrow> s \<in> set ss \<Longrightarrow>
     \<exists>e \<in> set g. fst e = step_id s \<and> set (snd e) = set (depends_on s)"
proof (induction ss arbitrary: g0)
  case Nil
  then show ?case by simp
next
  case (Cons a ss)
  from Cons.prems(1) obtain r where r: "add_dependencies ids (step_id a) (depends_on a) [] = Inr r"
    and l: "build_graph_loop ids ss (dict_set (step_id a) r g0) = Inr g"
    by (auto split: sum.splits)
  show ?case
  proof (cases "s = a")
    case True
    have "(step_id a, r) \<in> set g"
      using build_graph_loop_keep[OF l dict_set_mem] Cons.prems(2) by auto
    then show ?thesis using True add_dependencies_Inr[OF r] by force
  next
    case False
    then show ?thesis using Cons.IH[OF l] Cons.prems by auto
  qed
qed

lemma build_graph_ok:
  assumes "build_graph_loop (step_id ` set ss) ss [] = Inr g"
  shows "graph_ok g" and "fst ` set g = step_id ` set ss"
    and "graph_edges g \<subseteq> dep_edges ss"
    and "distinct (map step_id ss) \<Longrightarrow> dep_edges ss \<subseteq> graph_edges g"
    and "length g \<le> length ss"
    and "(length g = length ss) = distinct (map step_id ss)"
proof -
  show keys: "fst ` set g = step_id ` set ss"
    using build_graph_loop_keys[OF assms] by simp
  have dk: "distinct (map fst g)"
    using build_graph_loop_keys[OF assms] by simp
  show "graph_ok g"
    unfolding graph_ok_def using dk keys build_graph_loop_entries[OF assms]
      build_graph_loop_known[OF assms] by fastforce
  show "graph_edges g \<subseteq> dep_edges ss"
    using build_graph_loop_entries[OF assms] by (fastforce simp: graph_edges_iff dep_edges_iff)
  show "dep_edges ss \<subseteq> graph_edges g" if "distinct (map step_id ss)"
    using build_graph_loop_has[OF assms that] by (fastforce simp: graph_edges_iff dep_edges_iff)
  have len: "length g = card (step_id ` set ss)"
    using dk keys by (metis distinct_card length_map list.set_map)
  show "length g \<le> length ss"
    unfolding len by (metis card_image_le card_length le_trans List.finite_set)
  show "(length g = length ss) = distinct (map step_id ss)"
    unfolding len by (metis card_distinct distinct_card length_map list.set_map)
qed

lemma kahn_order_props:
  assumes ok: "graph_ok g"
  shows "distinct (kahn_order g)" and "set (kahn_order g) \<subseteq> fst ` set g"
    and "(set (kahn_order g) = fst ` set g) = acyclic (graph_edges g)"
    and "\<And>e d. e \<in> set g \<Longrightarrow> fst e \<in> set (kahn_order g) \<Longrightarrow> d \<in> set (snd e) \<Longrightarrow>
           d \<in> set (kahn_order g) \<and> pos (kahn_order g) d < pos (kahn_order g) (fst e)"
proof -
  obtain deg' where inv: "kahn_inv g deg' [] (kahn_order g)"
    using kahn_loop_inv[OF ok kahn_inv_init[OF ok]] by (auto simp: kahn_order_def Let_def)
  show "distinct (kahn_order g)" and "set (kahn_order g) \<subseteq> fst ` set g"
    using inv by (simp_all add: kahn_inv_def)
  show "(set (kahn_order g) = fst ` set g) = acyclic (graph_edges g)"
    using kahn_complete[OF ok inv] kahn_sound[OF inv] by auto
  show "d \<in> set (kahn_order g) \<and> pos (kahn_order g) d < pos (kahn_order g) (fst e)"
    if "e \<in> set g" "fst e \<in> set (kahn_order g)" "d \<in> set (snd e)" for e d
    using inv that by (simp add: kahn_inv_def)
qed

lemma parse_step_id: "parse_step sd = Inr s \<Longrightarrow> sd_id sd = Some (step_id s)"
proof (cases sd)
  case (StepData i t dep w c inp cmd pr cond msg onf tpl outp u ths els)
  assume r: "parse_step sd = Inr s"
  have ti: "truthy_str i" and tt: "truthy_str t"
    using r unfolding StepData by (auto split: if_splits)
  then obtain sid ty where i: "i = Some sid" and t: "t = Some ty"
    by (cases i; cases t) auto
  have "step_id s = sid"
    using r unfolding StepData i t
    by (simp add: Let_def split: if_splits sum.splits) auto
  then show ?thesis by (simp add: StepData i)
qed

lemma parse_step_list_ids:
  "parse_step_list sds = Inr ss \<Longrightarrow> map sd_id sds = map (\<lambda>s. Some (step_id s)) ss"
  by (induction sds arbitrary: ss) (auto split: sum.splits dest: parse_step_id)

lemma parse_step_Inl:
  "parse_step sd = Inl e \<Longrightarrow> \<exists>m. e = WorkflowValidationError m"
  "parse_step_list sds = Inl e \<Longrightarrow> \<exists>m. e = WorkflowValidationError m"
proof (induction sd and sds arbitrary: e and e rule: parse_step_parse_step_list.induct)
  case (1 i t dep w c inp cmd pr cond msg onf tpl outp u ths els)
  note r = "1.prems"
  show ?case
  proof (cases "truthy_str i \<and> truthy_str t \<and> the t = ''conditional'' \<and> truthy_str cond")
    case False
    then show ?thesis
      using r by (auto simp: Let_def split: if_splits)
  next
    case True
    then obtain sid where i: "i = Some sid" and t: "t = Some ''conditional''"
      by (cases i; cases t) auto
    have ih1: "parse_step_list ths = Inl e' \<Longrightarrow> \<exists>m. e' = WorkflowValidationError m" for e'
      using "1.IH"(1)[of sid "''conditional''" _ _ e'] True unfolding i t by simp
    have ih2: "parse_step_list ths = Inr ts \<Longrightarrow> parse_step_list els = Inl e' \<Longrightarrow>
        \<exists>m. e' = WorkflowValidationError m" for e' ts
      using "1.IH"(2)[of sid "''conditional''" _ _ ts e'] True unfolding i t
      by simp
    show ?thesis
      using r True ih1 ih2 unfolding i t
      by (simp add: Let_def split: sum.splits)
  qed
next
  case 2
  then show ?case by simp
next
  case (3 sd sds)
  then show ?case by (auto split: sum.splits)
qed

lemma compute_execution_order_alt:
  "compute_execution_order wfd =
     (if length (kahn_order (step_dependency_graph wfd)) \<noteq> length (wf_steps wfd)
      then Inl (WorkflowValidationError ''Circular dependency detected in workflow steps'')
      else Inr (wfd\<lparr>execution_order := kahn_order (step_dependency_graph wfd)\<rparr>))"
  by (simp add: compute_execution_order_def kahn_order_def Let_def)

lemma parse_workflow_data_steps:
  assumes "schema_error schema wd = None" and "truthy_str (wd_name wd)"
    and "truthy_str (wd_version wd)" and "wd_steps wd \<noteq> []"
    and "parse_step_list (wd_steps wd) = Inr ss"
    and "build_graph_loop (step_id ` set ss) ss [] = Inr g"
  shows "parse_workflow_data schema wd =
     (if length (kahn_order g) \<noteq> length ss
      then Inl (WorkflowValidationError ''Circular dependency detected in workflow steps'')
      else Inr \<lparr>wf_name = the (wd_name wd), wf_version = the (wd_version wd),
                wf_inputs = parse_inputs (wd_inputs wd),
                wf_outputs = parse_outputs (wd_outputs wd), wf_steps = ss,
                step_dependency_graph = g, execution_order = kahn_order g\<rparr>)"
  using assms
  by (simp add: parse_workflow_data_def build_dependency_graph_def compute_execution_order_alt)

lemma parse_workflow_data_Inl:
  "parse_workflow_data schema wd = Inl e \<Longrightarrow> \<exists>m. e = WorkflowValidationError m"
  unfolding parse_workflow_data_def build_dependency_graph_def compute_execution_order_alt
  by (auto split: option.splits if_splits sum.splits
      dest: parse_step_Inl(2) build_graph_loop_Inl)

lemma parse_workflow_data_Inr:
  assumes "parse_workflow_data schema wd = Inr wfd"
  shows "\<exists>ss g. schema_error schema wd = None \<and> truthy_str (wd_name wd) \<and>
     truthy_str (wd_version wd) \<and> wd_steps wd \<noteq> [] \<and>
     parse_step_list (wd_steps wd) = Inr ss \<and>
     build_graph_loop (step_id ` set ss) ss [] = Inr g \<and>
     length (kahn_order g) = length ss \<and> wf_steps wfd = ss \<and>
     execution_order wfd = kahn_order g"
  using assms
  unfolding parse_workflow_data_def build_dependency_graph_def compute_execution_order_alt
  by (auto split: option.splits if_splits sum.splits)

lemma full_order:
  assumes g: "build_graph_loop (step_id ` set ss) ss [] = Inr g"
    and len: "length (kahn_order g) = length ss"
  shows "distinct (map step_id ss)" and "set (kahn_order g) = step_id ` set ss"
    and "acyclic (dep_edges ss)"
proof -
  note ok = build_graph_ok(1)[OF g]
  note keys = build_graph_ok(2)[OF g]
  have "card (set (kahn_order g)) = length (kahn_order g)"
    using kahn_order_props(1)[OF ok] by (simp add: distinct_card)
  moreover have "card (set (kahn_order g)) \<le> card (fst ` set g)"
    using kahn_order_props(2)[OF ok] by (simp add: card_mono)
  moreover have "card (fst ` set g) \<le> length g"
    by (metis card_length length_map list.set_map)
  ultimately have lg: "length g = length ss" and ceq: "card (set (kahn_order g)) = card (fst ` set g)"
    using len build_graph_ok(5)[OF g] by linarith+
  show d: "distinct (map step_id ss)"
    using build_graph_ok(6)[OF g] lg by simp
  have seq: "set (kahn_order g) = fst ` set g"
    using kahn_order_props(2)[OF ok] ceq by (simp add: card_subset_eq)
  then show "set (kahn_order g) = step_id ` set ss"
    using keys by simp
  have "acyclic (graph_edges g)"
    using kahn_order_props(3)[OF ok] seq by simp
  then show "acyclic (dep_edges ss)"
    using build_graph_ok(4)[OF g d] by (rule acyclic_subset)
qed

lemma acyclic_full_order:
  assumes g: "build_graph_loop (step_id ` set ss) ss [] = Inr g"
    and d: "distinct (map step_id ss)" and ac: "acyclic (dep_edges ss)"
  shows "length (kahn_order g) = length ss"
proof -
  note ok = build_graph_ok(1)[OF g]
  have "acyclic (graph_edges g)"
    using ac build_graph_ok(3)[OF g] by (rule acyclic_subset)
  then have "set (kahn_order g) = fst ` set g"
    using kahn_order_props(3)[OF ok] by simp
  then have "card (set (kahn_order g)) = card (step_id ` set ss)"
    using build_graph_ok(2)[OF g] by simp
  moreover have "card (set (kahn_order g)) = length (kahn_order g)"
    using kahn_order_props(1)[OF ok] by (simp add: distinct_card)
  moreover have "card (step_id ` set ss) = length ss"
    using d by (metis distinct_card length_map list.set_map)
  ultimately show ?thesis by simp
qed

lemma order_respects_dependencies:
  assumes g: "build_graph_loop (step_id ` set ss) ss [] = Inr g"
    and len: "length (kahn_order g) = length ss"
    and s: "s \<in> set ss" and dd: "d \<in> set (depends_on s)"
  shows "pos (kahn_order g) d < pos (kahn_order g) (step_id s)"
proof -
  note ok = build_graph_ok(1)[OF g]
  from build_graph_loop_has[OF g full_order(1)[OF g len] s]
  obtain e where e: "e \<in> set g" "fst e = step_id s" "set (snd e) = set (depends_on s)"
    by auto
  have "fst e \<in> set (kahn_order g)"
    using full_order(2)[OF g len] s e(2) by simp
  from kahn_order_props(4)[OF ok e(1) this, of d] dd e show ?thesis
    by simp
qed

section \<open>Lemmas about the engine\<close>

lemma permissions_log [simp]: "permissions (log_security_event lib ev sc) = permissions sc"
  by (simp add: log_security_event_def)

lemma has_permission_log [simp]:
  "has_permission (log_security_event lib ev sc) p = has_permission sc p"
  by (simp add: has_permission_def)







lemma condition_false_is_clean:
  "\<not> list_ex (\<lambda>p. re_search p ''false'') (DANGEROUS_PATTERNS ''strict'')"
  by code_simp

lemma validate_false: "validate_string_input ''strict'' ''false'' c = Inr ''false''"
  using condition_false_is_clean
  by (simp add: validate_string_input_def get_max_length_def dict_get_def)

lemma evaluate_false: "evaluate_condition plain_library ''false'' ctx = Inr False"
  by (simp add: evaluate_condition_def plain_library_def basic_boolean_eval_def py_strip_def
      py_lower_def is_space_def lower_char_def latin1_upper_def latin1_lower_def)






lemma shell_example_is_clean:
  "\<not> list_ex (\<lambda>p. re_search p ''ls ; rm -rf /tmp/x'') (DANGEROUS_PATTERNS ''strict'')"
  by code_simp

lemma shell_example_pattern:
  "find (\<lambda>p. re_search p ''ls ; rm -rf /tmp/x'') dangerous_shell_patterns
     = Some ('';'' @ bs @ ''s*rm'' @ bs @ ''s+-rf'')"
  by code_simp

lemma template_example_is_clean:
  "\<not> list_ex (\<lambda>p. re_search p ''{{ user.mro }}'') (DANGEROUS_PATTERNS ''strict'')"
  by code_simp

lemma template_example_pattern:
  "find (\<lambda>p. re_search p ''{{ user.mro }}'') injection_patterns
     = Some (bs @ ''{'' @ bs @ ''{.*mro.*'' @ bs @ ''}'' @ bs @ ''}'')"
  by code_simp



section \<open>Claims about the parser\<close>

text \<open>
  Claim C1. For a workflow whose steps parse, have distinct ids, name only known steps in
  \<^verbatim>\<open>depends_on\<close> and whose dependency graph is acyclic, \<^verbatim>\<open>parse_workflow_data\<close> returns a
  definition: it holds the parsed steps, its \<^verbatim>\<open>execution_order\<close> has every step id exactly
  once (it is a permutation of the ids), and every step stands after each id of its
  \<^verbatim>\<open>depends_on\<close> list. The other hypotheses are the checks \<^verbatim>\<open>parse_workflow_data\<close> makes
  before it orders the steps (schema, name, version, at least one step).
\<close>

theorem execution_order_topological:
  assumes "schema_error schema wd = None"
    and "truthy_str (wd_name wd)" and "truthy_str (wd_version wd)"
    and "wd_steps wd \<noteq> []"
    and "parse_step_list (wd_steps wd) = Inr ss"
    and "distinct (map step_id ss)"
    and "\<forall>s \<in> set ss. set (depends_on s) \<subseteq> step_id ` set ss"
    and "acyclic (dep_edges ss)"
  shows "\<exists>wfd. parse_workflow_data schema wd = Inr wfd \<and> wf_steps wfd = ss \<and>
           mset (execution_order wfd) = mset (map step_id ss) \<and>
           (\<forall>s \<in> set ss. \<forall>d \<in> set (depends_on s).
              pos (execution_order wfd) d < pos (execution_order wfd) (step_id s))"
proof -
  obtain g where g: "build_graph_loop (step_id ` set ss) ss [] = Inr g"
    using build_graph_loop_total[OF assms(7)] by blast
  have len: "length (kahn_order g) = length ss"
    by (rule acyclic_full_order[OF g assms(6,8)])
  let ?wfd = "\<lparr>wf_name = the (wd_name wd), wf_version = the (wd_version wd),
                wf_inputs = parse_inputs (wd_inputs wd),
                wf_outputs = parse_outputs (wd_outputs wd), wf_steps = ss,
                step_dependency_graph = g, execution_order = kahn_order g\<rparr>"
  have p: "parse_workflow_data schema wd = Inr ?wfd"
    using parse_workflow_data_steps[OF assms(1-5) g] len by simp
  have "distinct (kahn_order g)"
    using kahn_order_props(1)[OF build_graph_ok(1)[OF g]] .
  then have m: "mset (kahn_order g) = mset (map step_id ss)"
    using full_order(2)[OF g len] assms(6)
    by (metis list.set_map set_eq_iff_mset_eq_distinct)
  show ?thesis
    using p m order_respects_dependencies[OF g len] by auto
qed

theorem execution_order_topological_witness:
  "\<exists>wfd. parse_workflow_data None
      \<lparr>wd_name = Some ''build'', wd_version = Some ''1.0'', wd_inputs = [],
       wd_outputs = [],
       wd_steps =
         [StepData (Some ''B'') (Some ''shell'') (Some (DepList [''A''])) None [] []
            (Some ''make test'') None None None None None None None [] [],
          StepData (Some ''A'') (Some ''shell'') None None [] []
            (Some ''make'') None None None None None None None [] []]\<rparr> = Inr wfd \<and>
     wf_steps wfd =
       [WorkflowStep ''B'' ''shell'' [''A''] None [] [] (Some ''make test'') None None None
          (Some ''fail'') None None None [] [],
        WorkflowStep ''A'' ''shell'' [] None [] [] (Some ''make'') None None None
          (Some ''fail'') None None None [] []] \<and>
     mset (execution_order wfd) = mset [''B'', ''A''] \<and>
     pos (execution_order wfd) ''A'' < pos (execution_order wfd) ''B''"
  using execution_order_topological [of None
      "\<lparr>wd_name = Some ''build'', wd_version = Some ''1.0'', wd_inputs = [],
       wd_outputs = [],
       wd_steps =
         [StepData (Some ''B'') (Some ''shell'') (Some (DepList [''A''])) None [] []
            (Some ''make test'') None None None None None None None [] [],
          StepData (Some ''A'') (Some ''shell'') None None [] []
            (Some ''make'') None None None None None None None [] []]\<rparr>"
      "[WorkflowStep ''B'' ''shell'' [''A''] None [] [] (Some ''make test'') None None None
          (Some ''fail'') None None None [] [],
        WorkflowStep ''A'' ''shell'' [] None [] [] (Some ''make'') None None None
          (Some ''fail'') None None None [] []]"]
  by (simp add: schema_error_def dep_edges_def acyclic_insert wf_acyclic)

text \<open>
  Claim C2. A workflow whose steps parse and whose dependency graph has a cycle is never
  returned as a definition: \<^verbatim>\<open>parse_workflow_data\<close> raises \<^verbatim>\<open>WorkflowValidationError\<close>. When
  the document passes the checks made before the ordering (schema, name, version, every
  dependency names a step), the error is the one of the cycle check, with the message
  \<^verbatim>\<open>Circular dependency detected in workflow steps\<close>. Parsing is the only place the order is
  computed, so no such workflow reaches the engine.
\<close>

theorem cycle_rejected:
  assumes "parse_step_list (wd_steps wd) = Inr ss" and "\<not> acyclic (dep_edges ss)"
  shows "(\<exists>m. parse_workflow_data schema wd = Inl (WorkflowValidationError m)) \<and>
         (schema_error schema wd = None \<and> truthy_str (wd_name wd) \<and>
          truthy_str (wd_version wd) \<and>
          (\<forall>s \<in> set ss. set (depends_on s) \<subseteq> step_id ` set ss) \<longrightarrow>
            parse_workflow_data schema wd =
              Inl (WorkflowValidationError ''Circular dependency detected in workflow steps''))"
proof -
  have no: "parse_workflow_data schema wd \<noteq> Inr wfd" for wfd
  proof
    assume "parse_workflow_data schema wd = Inr wfd"
    from parse_workflow_data_Inr[OF this] obtain ss' g where
      "parse_step_list (wd_steps wd) = Inr ss'"
      "build_graph_loop (step_id ` set ss') ss' [] = Inr g"
      "length (kahn_order g) = length ss'" by blast
    then show False using full_order(3)[of ss' g] assms by simp
  qed
  have first: "\<exists>m. parse_workflow_data schema wd = Inl (WorkflowValidationError m)"
    using no parse_workflow_data_Inl[of schema wd]
    by (cases "parse_workflow_data schema wd") auto
  have second: "parse_workflow_data schema wd =
      Inl (WorkflowValidationError ''Circular dependency detected in workflow steps'')"
    if h: "schema_error schema wd = None" "truthy_str (wd_name wd)" "truthy_str (wd_version wd)"
      "\<forall>s \<in> set ss. set (depends_on s) \<subseteq> step_id ` set ss"
  proof -
    obtain g where g: "build_graph_loop (step_id ` set ss) ss [] = Inr g"
      using build_graph_loop_total[OF h(4)] by blast
    have ne: "wd_steps wd \<noteq> []"
      using assms by (auto simp: dep_edges_def acyclic_def)
    show ?thesis
      using parse_workflow_data_steps[OF h(1-3) ne assms(1) g] no
      by (auto split: if_splits)
  qed
  from first second show ?thesis by blast
qed

theorem cycle_rejected_witness:
  "parse_workflow_data None
      \<lparr>wd_name = Some ''loop'', wd_version = Some ''1.0'', wd_inputs = [],
       wd_outputs = [],
       wd_steps =
         [StepData (Some ''A'') (Some ''shell'') (Some (DepList [''B''])) None [] []
            (Some ''make a'') None None None None None None None [] [],
          StepData (Some ''B'') (Some ''shell'') (Some (DepList [''A''])) None [] []
            (Some ''make b'') None None None None None None None [] []]\<rparr>
     = Inl (WorkflowValidationError ''Circular dependency detected in workflow steps'')"
proof -
  let ?ss = "[WorkflowStep ''A'' ''shell'' [''B''] None [] [] (Some ''make a'') None None None
          (Some ''fail'') None None None [] [],
        WorkflowStep ''B'' ''shell'' [''A''] None [] [] (Some ''make b'') None None None
          (Some ''fail'') None None None [] []]"
  have "(''A'', ''B'') \<in> dep_edges ?ss" and "(''B'', ''A'') \<in> dep_edges ?ss"
    by (simp_all add: dep_edges_def)
  then have "(''A'', ''A'') \<in> (dep_edges ?ss)\<^sup>+"
    by (meson trancl.intros)
  then have cyc: "\<not> acyclic (dep_edges ?ss)"
    by (auto simp: acyclic_def)
  show ?thesis
    using cycle_rejected [of _ ?ss None, OF _ cyc]
    by (simp add: schema_error_def)
qed

text \<open>
  Claim C8. A document in which two entries of \<^verbatim>\<open>steps\<close> have the same id never parses:
  \<^verbatim>\<open>parse_workflow_data\<close> raises \<^verbatim>\<open>WorkflowValidationError\<close>. (The graph has one key per
  distinct id, so the order is shorter than the step list and the length check of
  \<^verbatim>\<open>_compute_execution_order\<close> fails.)
\<close>

theorem duplicate_step_ids_rejected:
  assumes "\<not> distinct (map sd_id (wd_steps wd))"
  shows "\<exists>m. parse_workflow_data schema wd = Inl (WorkflowValidationError m)"
proof -
  have no: "parse_workflow_data schema wd \<noteq> Inr wfd" for wfd
  proof
    assume "parse_workflow_data schema wd = Inr wfd"
    from parse_workflow_data_Inr[OF this] obtain ss g where
      p: "parse_step_list (wd_steps wd) = Inr ss"
      and g: "build_graph_loop (step_id ` set ss) ss [] = Inr g"
      and len: "length (kahn_order g) = length ss" by blast
    have "distinct (map step_id ss)" by (rule full_order(1)[OF g len])
    then have "distinct (map (\<lambda>s. Some (step_id s)) ss)"
      by (simp add: distinct_map inj_on_def)
    then show False using parse_step_list_ids[OF p] assms by simp
  qed
  then show ?thesis
    using parse_workflow_data_Inl[of schema wd]
    by (cases "parse_workflow_data schema wd") auto
qed

theorem duplicate_step_ids_rejected_witness:
  "\<exists>m. parse_workflow_data None
      \<lparr>wd_name = Some ''twice'', wd_version = Some ''1.0'', wd_inputs = [],
       wd_outputs = [],
       wd_steps =
         [StepData (Some ''A'') (Some ''shell'') None None [] []
            (Some ''make'') None None None None None None None [] [],
          StepData (Some ''A'') (Some ''shell'') None None [] []
            (Some ''make test'') None None None None None None None [] []]\<rparr>
     = Inl (WorkflowValidationError m)"
  using duplicate_step_ids_rejected [of
      "\<lparr>wd_name = Some ''twice'', wd_version = Some ''1.0'', wd_inputs = [],
       wd_outputs = [],
       wd_steps =
         [StepData (Some ''A'') (Some ''shell'') None None [] []
            (Some ''make'') None None None None None None None [] [],
          StepData (Some ''A'') (Some ''shell'') None None [] []
            (Some ''make test'') None None None None None None None [] []]\<rparr>" None]
  by simp

text \<open>
  Claim C9 as stated fails: \<^verbatim>\<open>parse_workflow_data\<close> never looks at what an output refers
  to. This document, whose only output names the step \<^verbatim>\<open>ghost\<close> that is not in its step
  list, parses.
\<close>

theorem unresolved_output_reference_parses:
  "parse_workflow_data None
      \<lparr>wd_name = Some ''report'', wd_version = Some ''1.0'', wd_inputs = [],
       wd_outputs = [(''summary'', Some ''ghost.outputs.text'')],
       wd_steps =
         [StepData (Some ''A'') (Some ''shell'') None None [] []
            (Some ''make'') None None None None None None None [] []]\<rparr>
   = Inr \<lparr>wf_name = ''report'', wf_version = ''1.0'', wf_inputs = [],
           wf_outputs = [(''summary'', \<lparr>output_name = ''summary'',
                                        from_step = Some ''ghost.outputs.text''\<rparr>)],
           wf_steps =
             [WorkflowStep ''A'' ''shell'' [] None [] [] (Some ''make'') None None None
                (Some ''fail'') None None None [] []],
           step_dependency_graph = [(''A'', [])], execution_order = [''A'']\<rparr>"
  by (simp add: parse_workflow_data_def schema_error_def parse_inputs_def parse_outputs_def
      build_dependency_graph_def compute_execution_order_def)

text \<open>
  Claim C9 as amended: the unresolved reference is reported after parsing, by
  \<^verbatim>\<open>validate_workflow\<close>. For a parsed workflow, every output whose \<^verbatim>\<open>from\<close> reference has at
  least two dot-separated parts and whose first part is not the id of a step is in the
  returned list of issues, as \<^verbatim>\<open>Output <name> references unknown step: <id>\<close>.
\<close>

theorem unresolved_output_reference_reported:
  assumes "parse_workflow_data schema wd = Inr wfd"
    and "(name, out) \<in> set (wf_outputs wfd)"
    and "from_step out = Some ref"
    and "2 \<le> length (split_on (CHR ''.'') ref)"
    and "hd (split_on (CHR ''.'') ref) \<notin> step_id ` set (wf_steps wfd)"
  shows "''Output '' @ name @ '' references unknown step: '' @ hd (split_on (CHR ''.'') ref)
           \<in> set (validate_workflow step_ref wfd)"
proof -
  have ne: "ref \<noteq> []"
    using assms(4) by auto
  let ?f = "\<lambda>e. (case from_step (snd e) of
          None \<Rightarrow> []
        | Some ref \<Rightarrow>
            if ref = [] then []
            else (let parts = split_on (CHR ''.'') ref
                  in if 2 \<le> length parts
                     then (if hd parts \<notin> set (map step_id (wf_steps wfd))
                           then [''Output '' @ fst e @ '' references unknown step: '' @ hd parts]
                           else [])
                     else []))"
  have "''Output '' @ name @ '' references unknown step: '' @ hd (split_on (CHR ''.'') ref)
          \<in> set (?f (name, out))"
    using assms(3-5) ne by (simp add: Let_def)
  then have "''Output '' @ name @ '' references unknown step: '' @ hd (split_on (CHR ''.'') ref)
          \<in> set (output_issues (map step_id (wf_steps wfd)) (wf_outputs wfd))"
    unfolding output_issues_def set_concat set_map using assms(2) by blast
  then show ?thesis
    by (simp add: validate_workflow_def Let_def)
qed

theorem unresolved_output_reference_reported_witness:
  "''Output summary references unknown step: ghost''
     \<in> set (validate_workflow (\<lambda>v. None)
        \<lparr>wf_name = ''report'', wf_version = ''1.0'', wf_inputs = [],
           wf_outputs = [(''summary'', \<lparr>output_name = ''summary'',
                                        from_step = Some ''ghost.outputs.text''\<rparr>)],
           wf_steps =
             [WorkflowStep ''A'' ''shell'' [] None [] [] (Some ''make'') None None None
                (Some ''fail'') None None None [] []],
           step_dependency_graph = [(''A'', [])], execution_order = [''A'']\<rparr>)"
  using unresolved_output_reference_reported [of None
      "\<lparr>wd_name = Some ''report'', wd_version = Some ''1.0'', wd_inputs = [],
       wd_outputs = [(''summary'', Some ''ghost.outputs.text'')],
       wd_steps =
         [StepData (Some ''A'') (Some ''shell'') None None [] []
            (Some ''make'') None None None None None None None [] []]\<rparr>"
      "\<lparr>wf_name = ''report'', wf_version = ''1.0'', wf_inputs = [],
           wf_outputs = [(''summary'', \<lparr>output_name = ''summary'',
                                        from_step = Some ''ghost.outputs.text''\<rparr>)],
           wf_steps =
             [WorkflowStep ''A'' ''shell'' [] None [] [] (Some ''make'') None None None
                (Some ''fail'') None None None [] []],
           step_dependency_graph = [(''A'', [])], execution_order = [''A'']\<rparr>"
      "''summary''" "\<lparr>output_name = ''summary'', from_step = Some ''ghost.outputs.text''\<rparr>"
      "''ghost.outputs.text''" "\<lambda>v. None"]
  by (simp add: parse_workflow_data_def schema_error_def parse_inputs_def parse_outputs_def
      build_dependency_graph_def compute_execution_order_def)

section \<open>Claims about the engine\<close>

text \<open>
  Claim C3 as stated fails: on a cache hit the result's status is not \<^verbatim>\<open>CACHED\<close>. The step
  below is cache-enabled and its key is in the cache, sixty seconds old with a TTL of an
  hour; \<^verbatim>\<open>_execute_step_securely\<close> returns a result whose status is \<^verbatim>\<open>COMPLETED\<close>, since the
  hit ends with \<^verbatim>\<open>set_completed\<close>.
\<close>

theorem cache_hit_status_is_completed:
  "status (step_result
     (execute_step_securely plain_library ''strict'' (\<lambda>s c st. (None, st)) (\<lambda>s c st. (None, st))
        160 161
        (WorkflowStep ''build'' ''shell'' [] None [] [] (Some ''make'') None None None
           (Some ''fail'') None None None [] [])
        [(''inputs'', JDict [])]
        \<lparr>security_context =
           \<lparr>user_id = ''dev'', permissions = {''workflow.execute'', ''shell.execute''},
            security_profile = ''restricted'', audit_trail = []\<rparr>,
         step_cache =
           [(''build|shell|{}|{}'',
             \<lparr>entry_outputs = [(''stdout'', JStr ''ok'')], cached_at = 100, ttl = 3600\<rparr>)],
         world = [], step_result = new_result ''build'' PENDING\<rparr>))
   = COMPLETED"
  by (simp add: execute_step_securely_def get_cached_result_def new_result_def
      set_completed_def Let_def cache_enabled_def dict_get_def generate_cache_key_secure_def
      plain_library_def)

text \<open>
  Claim C3 as amended. For a cache-enabled step whose cache key is in the step cache and
  not expired, \<^verbatim>\<open>_execute_step_securely\<close> returns a result with status \<^verbatim>\<open>COMPLETED\<close>,
  \<^verbatim>\<open>cached\<close> true, the cache key and the cached outputs, and runs no executor: the security
  context (its audit trail too), the cache and the world outside are as they were, whatever
  the executors of shell and template steps would do.
\<close>

theorem cache_hit_returns_completed:
  assumes "cache_enabled step"
    and "map_of (step_cache st) (generate_cache_key_secure lib step ctx) = Some entry"
    and "\<not> now_lookup - cached_at entry > ttl entry"
  shows "execute_step_securely lib lvl shell_body template_body now_lookup now_store step ctx st
      = st\<lparr>step_result :=
             \<lparr>result_step_id = step_id step, status = COMPLETED,
              outputs = entry_outputs entry, error = None, cached = True,
              cache_key = Some (generate_cache_key_secure lib step ctx),
              sanitized_stdout = None, exit_code = None\<rparr>\<rparr>"
  using assms
  by (simp add: execute_step_securely_def get_cached_result_def new_result_def
      set_completed_def Let_def)

theorem cache_hit_returns_completed_witness:
  "execute_step_securely plain_library ''strict'' (\<lambda>s c st. (None, st)) (\<lambda>s c st. (None, st))
        160 161
        (WorkflowStep ''build'' ''shell'' [] None [] [] (Some ''make'') None None None
           (Some ''fail'') None None None [] [])
        [(''inputs'', JDict [])]
        \<lparr>security_context =
           \<lparr>user_id = ''dev'', permissions = {''workflow.execute'', ''shell.execute''},
            security_profile = ''restricted'', audit_trail = []\<rparr>,
         step_cache =
           [(''build|shell|{}|{}'',
             \<lparr>entry_outputs = [(''stdout'', JStr ''ok'')], cached_at = 100, ttl = 3600\<rparr>)],
         world = [], step_result = new_result ''build'' PENDING\<rparr>
   = \<lparr>security_context =
           \<lparr>user_id = ''dev'', permissions = {''workflow.execute'', ''shell.execute''},
            security_profile = ''restricted'', audit_trail = []\<rparr>,
         step_cache =
           [(''build|shell|{}|{}'',
             \<lparr>entry_outputs = [(''stdout'', JStr ''ok'')], cached_at = 100, ttl = 3600\<rparr>)],
         world = [],
         step_result =
           \<lparr>result_step_id = ''build'', status = COMPLETED,
            outputs = [(''stdout'', JStr ''ok'')], error = None, cached = True,
            cache_key = Some ''build|shell|{}|{}'', sanitized_stdout = None,
            exit_code = None\<rparr>\<rparr>"
  using cache_hit_returns_completed [of
      "WorkflowStep ''build'' ''shell'' [] None [] [] (Some ''make'') None None None
           (Some ''fail'') None None None [] []"
      "\<lparr>security_context =
           \<lparr>user_id = ''dev'', permissions = {''workflow.execute'', ''shell.execute''},
            security_profile = ''restricted'', audit_trail = []\<rparr>,
         step_cache =
           [(''build|shell|{}|{}'',
             \<lparr>entry_outputs = [(''stdout'', JStr ''ok'')], cached_at = 100, ttl = 3600\<rparr>)],
         world = [], step_result = new_result ''build'' PENDING\<rparr>"
      plain_library "[(''inputs'', JDict [])]"
      "\<lparr>entry_outputs = [(''stdout'', JStr ''ok'')], cached_at = 100, ttl = 3600\<rparr>"
      160 "''strict''" "\<lambda>s c st. (None, st)" "\<lambda>s c st. (None, st)" 161]
  by (simp add: cache_enabled_def dict_get_def generate_cache_key_secure_def plain_library_def)

text \<open>
  Claim C4 fails on the code for \<^verbatim>\<open>on_failure='continue'\<close>: the assert step below has a
  condition that is false and the policy \<^verbatim>\<open>continue\<close>, and its final status is \<^verbatim>\<open>COMPLETED\<close>,
  not \<^verbatim>\<open>SKIPPED\<close>. \<^verbatim>\<open>_execute_assert_step\<close> assigns \<^verbatim>\<open>SKIPPED\<close> and then calls
  \<^verbatim>\<open>set_completed\<close>, which overwrites the status.
\<close>

theorem assert_continue_ends_completed:
  "status (step_result
     (execute_step_securely plain_library ''strict'' (\<lambda>s c st. (None, st)) (\<lambda>s c st. (None, st))
        160 161
        (WorkflowStep ''check'' ''assert'' [] None [] [] None None (Some ''false'') None
           (Some ''continue'') None None None [] [])
        [(''inputs'', JDict [])]
        \<lparr>security_context =
           \<lparr>user_id = ''dev'', permissions = {''workflow.execute''},
            security_profile = ''restricted'', audit_trail = []\<rparr>,
         step_cache = [], world = [], step_result = new_result ''check'' PENDING\<rparr>))
   = COMPLETED"
  by (simp add: execute_step_securely_def get_cached_result_def new_result_def
      set_completed_def Let_def cache_enabled_def dict_get_def run_step_def dispatch_step_def
      execute_assert_step_def validate_false evaluate_false)

text \<open>
  Claim C5 fails on the code for shell commands and templates: the message of the
  \<^verbatim>\<open>SecurityError\<close> ends with the text of the pattern that was found. (\<^verbatim>\<open>validate_string_input\<close>
  keeps the pattern out of its message.)
\<close>

theorem rejection_message_holds_pattern:
  "validate_shell_command ''strict'' ''ls ; rm -rf /tmp/x''
     = Inl (SecurityError (''Dangerous shell pattern detected: ;'' @ bs @ ''s*rm'' @ bs @ ''s+-rf''))
   \<and> validate_template_content ''strict'' ''{{ user.mro }}''
     = Inl (SecurityError (''Template injection pattern detected: ''
              @ bs @ ''{'' @ bs @ ''{.*mro.*'' @ bs @ ''}'' @ bs @ ''}''))"
  using shell_example_is_clean shell_example_pattern
    template_example_is_clean template_example_pattern
  by (simp add: validate_shell_command_def validate_template_content_def
      validate_string_input_def get_max_length_def dict_get_def)







text \<open>
  Claim C10. A security context whose permissions hold \<^verbatim>\<open>admin\<close> has every permission it is
  asked for, so the three gates of the engine let it through: the shell and the template
  executor go on to their body, and \<^verbatim>\<open>execute_workflow_securely\<close> fails only if the
  validation of the inputs does.
\<close>

theorem admin_passes_every_gate:
  assumes "''admin'' \<in> permissions sc"
  shows "has_permission sc p \<and>
     execute_shell_step body step ctx (st\<lparr>security_context := sc\<rparr>)
       = body step ctx (st\<lparr>security_context := sc\<rparr>) \<and>
     execute_template_step body step ctx (st\<lparr>security_context := sc\<rparr>)
       = body step ctx (st\<lparr>security_context := sc\<rparr>) \<and>
     execute_workflow_securely lib lvl run wfd ins sc
       = (case validate_workflow_inputs lib lvl wfd ins sc of
            Inl e \<Rightarrow> Inl e | Inr sc' \<Rightarrow> Inr (run wfd ins sc'))"
proof -
  have p: "has_permission sc q" for q
    using assms by (simp add: has_permission_def)
  have "execute_workflow_securely lib lvl run wfd ins sc
       = (case validate_workflow_inputs lib lvl wfd ins sc of
            Inl e \<Rightarrow> Inl e | Inr sc' \<Rightarrow> Inr (run wfd ins sc'))"
    using p by (auto simp: execute_workflow_securely_def validate_workflow_inputs_def
        split: sum.splits option.splits)
  then show ?thesis
    using p by (simp add: execute_shell_step_def execute_template_step_def)
qed

theorem admin_passes_every_gate_witness:
  "has_permission
     \<lparr>user_id = ''ops'', permissions = {''admin''}, security_profile = ''standard'',
      audit_trail = []\<rparr> ''shell.execute'' \<and>
   ''shell.execute'' \<notin> permissions
     \<lparr>user_id = ''ops'', permissions = {''admin''}, security_profile = ''standard'',
      audit_trail = []\<rparr>"
  using admin_passes_every_gate [of
      "\<lparr>user_id = ''ops'', permissions = {''admin''}, security_profile = ''standard'',
        audit_trail = []\<rparr>" "''shell.execute''", THEN conjunct1]
  by simp

end
